theory Spec2Isabelle
  imports Complex_Main "HOL-Library.AList"
begin

section \<open>Shared data model of \<^verbatim>\<open>car_racing.py\<close>\<close>

text \<open>
  Exceptions of the Python source are values: a function that can raise returns
  \<open>error + 'a\<close>, with \<open>Inl\<close> the exception.
\<close>

datatype error = IndexError | ZeroDivisionError | KeyError | AttributeError | RuntimeError
  | NameError

text \<open>
  One row of the structured array \<^verbatim>\<open>info\<close> built by \<^verbatim>\<open>_create_info\<close>. Only the fields
  read by the lane assigner and by the lookahead graph are kept. The fields \<^verbatim>\<open>end\<close> and
  \<^verbatim>\<open>start\<close> are called \<open>tile_end\<close> and \<open>tile_start\<close>.
\<close>

record tile_info =
  track :: nat
  tile_end :: bool
  tile_start :: bool
  intersection_id :: int
  lanes :: "bool list"

text \<open>The keyword arguments of \<^verbatim>\<open>_set_config\<close> that generation reads, after its clamping.\<close>

record config =
  num_tracks :: nat
  num_lanes :: nat
  num_lanes_changes :: nat
  max_single_lane :: nat

definition set_config :: "int \<Rightarrow> int \<Rightarrow> int \<Rightarrow> int \<Rightarrow> config" where
  "set_config n_tracks n_lanes n_lanes_changes n_max_single_lane =
     \<lparr> num_tracks = (if n_tracks > 0 \<and> n_tracks \<le> 2 then nat n_tracks else 1),
       num_lanes = (if n_lanes = 1 \<or> n_lanes = 2 then nat n_lanes else 1),
       num_lanes_changes = (if n_lanes_changes \<ge> 0 then nat n_lanes_changes else 0),
       max_single_lane = (if n_max_single_lane > 10 then nat n_max_single_lane else 50) \<rparr>"

text \<open>
  Indexing a Python list or a numpy array with an integer: a negative index counts
  from the end, anything outside raises \<^verbatim>\<open>IndexError\<close>.
\<close>

definition item :: "'a list \<Rightarrow> int \<Rightarrow> error + 'a" where
  "item xs i =
     (if 0 \<le> i \<and> i < int (length xs) then Inr (xs ! nat i)
      else if i < 0 \<and> - int (length xs) \<le> i then Inr (xs ! nat (int (length xs) + i))
      else Inl IndexError)"

text \<open>Python's \<^verbatim>\<open>a % n\<close> on integers; for \<open>n > 0\<close> the result is in \<open>[0, n)\<close>, as HOL's \<open>mod\<close>.\<close>

definition py_mod :: "int \<Rightarrow> int \<Rightarrow> error + int" where
  "py_mod a n = (if n = 0 then Inl ZeroDivisionError else Inr (a mod n))"

text \<open>A \<^verbatim>\<open>for\<close> loop whose body can raise: the first exception ends the loop.\<close>

fun for_each :: "('a \<Rightarrow> 's \<Rightarrow> error + 's) \<Rightarrow> 'a list \<Rightarrow> 's \<Rightarrow> error + 's" where
  "for_each f [] s = Inr s"
| "for_each f (x # xs) s =
     (case f x s of Inl e \<Rightarrow> Inl e | Inr s' \<Rightarrow> for_each f xs s')"

section \<open>Lane assigner: \<^verbatim>\<open>_create_info\<close> (lane masks) and \<^verbatim>\<open>_set_lanes\<close>\<close>

text \<open>
  \<^verbatim>\<open>_create_info\<close> gives every row its own fresh list \<^verbatim>\<open>[True, True]\<close>
  (\<^verbatim>\<open>for i in range(len(info)): info[i]['lanes'] = [True, True]\<close>). The other fields come
  from floating-point geometry and are taken as given.
\<close>

definition create_info_lanes :: "tile_info list \<Rightarrow> tile_info list" where
  "create_info_lanes info = map (\<lambda>t. t\<lparr>lanes := [True, True]\<rparr>) info"

text \<open>
  \<^verbatim>\<open>self.info[i]['lanes'][lane] = v\<close>: the row is read (\<^verbatim>\<open>IndexError\<close> outside the
  array), then its list is written in place (\<^verbatim>\<open>IndexError\<close> outside the list).
\<close>

definition set_lane :: "nat \<Rightarrow> nat \<Rightarrow> bool \<Rightarrow> tile_info list \<Rightarrow> error + tile_info list" where
  "set_lane i lane v info =
     (if i < length info \<and> lane < length (lanes (info ! i))
      then Inr (info[i := (info ! i)\<lparr>lanes := (lanes (info ! i))[lane := v]\<rparr>])
      else Inl IndexError)"

text \<open>
  The inner loop of the validation of one change point \<open>idx\<close>:
  \<^verbatim>\<open>for i in range(50+1): if track_info[(idx_relative+i)%len(track_info)]['end'] or
  track_info[idx_relative-i]['start']: changes_bad.append(idx); break\<close>.
  The result says whether \<open>idx\<close> was appended.
\<close>

fun near_boundary :: "tile_info list \<Rightarrow> int \<Rightarrow> nat list \<Rightarrow> error + bool" where
  "near_boundary track_info idx_relative [] = Inr False"
| "near_boundary track_info idx_relative (i # is) =
     (case py_mod (idx_relative + int i) (int (length track_info)) of
        Inl e \<Rightarrow> Inl e
      | Inr a \<Rightarrow>
        (case item track_info a of
           Inl e \<Rightarrow> Inl e
         | Inr ta \<Rightarrow>
           if tile_end ta then Inr True
           else (case item track_info (idx_relative - int i) of
                   Inl e \<Rightarrow> Inl e
                 | Inr tb \<Rightarrow>
                   if tile_start tb then Inr True
                   else near_boundary track_info idx_relative is)))"

text \<open>
  The body of \<^verbatim>\<open>for pos, idx in enumerate(changes)\<close>: what it appends to
  \<^verbatim>\<open>changes_bad\<close>. The bare name \<^verbatim>\<open>next\<close> after the first append is no \<^verbatim>\<open>continue\<close>,
  so the boundary scan runs in every case. The distance test subtracts the absolute
  \<open>idx\<close> from the track-relative change points, as the source does.
\<close>

definition changes_bad_for :: "tile_info list \<Rightarrow> nat list \<Rightarrow> nat \<Rightarrow> error + nat list" where
  "changes_bad_for info changes idx =
     (case item info (int idx) of
        Inl e \<Rightarrow> Inl e
      | Inr t \<Rightarrow>
        (let start_from = int (length (filter (\<lambda>u. track u < track t) info));
             until = int (length (filter (\<lambda>u. track u = track t) info));
             changes_in_track =
               filter (\<lambda>c. c < until \<and> c > 0) (map (\<lambda>c. int c - start_from) changes);
             idx_relative = int idx - start_from;
             close_by =
               (if length (filter (\<lambda>c. c - int idx > 0 \<and> c - int idx < 10) changes_in_track) > 0
                then [idx] else []);
             track_info = filter (\<lambda>u. track u = track t) info
         in case near_boundary track_info idx_relative [0..<50 + 1] of
              Inl e \<Rightarrow> Inl e
            | Inr b \<Rightarrow> Inr (close_by @ (if b then [idx] else []))))"

definition changes_bad_of :: "tile_info list \<Rightarrow> nat list \<Rightarrow> error + nat list" where
  "changes_bad_of info changes =
     for_each (\<lambda>idx bad. case changes_bad_for info changes idx of
                            Inl e \<Rightarrow> Inl e | Inr new \<Rightarrow> Inr (bad @ new))
       changes []"

text \<open>
  The state of the walk over the tiles: the locals \<^verbatim>\<open>rm_lane\<close>, \<^verbatim>\<open>lane\<close> and \<^verbatim>\<open>counter\<close>,
  the number of draws taken so far from the process-wide generator \<^verbatim>\<open>np.random\<close>, and
  \<^verbatim>\<open>self.info\<close>.
\<close>

record walk =
  w_rm_lane :: nat
  w_lane :: nat
  w_counter :: nat
  w_drawn :: nat
  w_info :: "tile_info list"

text \<open>
  The body of \<^verbatim>\<open>for i, point in enumerate(self.track)\<close>. The lane to drop is
  \<^verbatim>\<open>np.random.randint(0,2,1)[0]\<close>: the \<open>k\<close>-th draw of the module-level generator of
  numpy is \<open>global_rnd k\<close> (\<open>True\<close> for lane 1), a generator that \<^verbatim>\<open>seed()\<close> of the
  environment does not touch.
\<close>

definition walk_step :: "nat \<Rightarrow> nat list \<Rightarrow> (nat \<Rightarrow> bool) \<Rightarrow> nat \<Rightarrow> walk \<Rightarrow> error + walk" where
  "walk_step msl changes global_rnd i w =
     (let change = (i \<in> set changes);
          rm1 = (w_rm_lane w + (if change then 1 else 0)) mod 2;
          draw = (change \<and> rm1 = 1);
          lane1 = (if draw then (if global_rnd (w_drawn w) then 1 else 0) else w_lane w);
          drawn1 = (if draw then w_drawn w + 1 else w_drawn w)
      in case (if rm1 \<noteq> 0 then set_lane i lane1 False (w_info w) else Inr (w_info w)) of
           Inl e \<Rightarrow> Inl e
         | Inr info1 \<Rightarrow>
           (let counter1 = (if rm1 \<noteq> 0 then w_counter w + 1 else 0)
            in case item info1 (int i) of
                 Inl e \<Rightarrow> Inl e
               | Inr t \<Rightarrow>
                 Inr \<lparr> w_rm_lane = (if tile_end t \<or> tile_start t \<or> counter1 > msl then 0 else rm1),
                       w_lane = lane1, w_counter = counter1, w_drawn = drawn1, w_info = info1 \<rparr>))"

text \<open>
  One pass of the innermost loop of the final override:
  \<^verbatim>\<open>self.info[self.info['track'] == num_track][+i]['lanes'][lane] = True\<close> and the same
  with \<^verbatim>\<open>[-i]\<close>. The boolean mask copies the rows but not the lists they hold, so the
  writes reach \<^verbatim>\<open>self.info\<close>. \<open>ids\<close> are the positions selected by the mask.
\<close>

definition override_step :: "nat \<times> nat \<times> nat \<Rightarrow> tile_info list \<Rightarrow> error + tile_info list" where
  "override_step = (\<lambda>(num_track, lane, i) info.
     (let ids = filter (\<lambda>j. track (info ! j) = num_track) [0..<length info]
      in case item ids (int i) of
           Inl e \<Rightarrow> Inl e
         | Inr a \<Rightarrow>
           (case set_lane a lane True info of
              Inl e \<Rightarrow> Inl e
            | Inr info1 \<Rightarrow>
              (case item ids (- int i) of
                 Inl e \<Rightarrow> Inl e
               | Inr b \<Rightarrow> set_lane b lane True info1))))"

definition override_range :: "config \<Rightarrow> (nat \<times> nat \<times> nat) list" where
  "override_range cfg =
     concat (map (\<lambda>num_track.
       concat (map (\<lambda>lane. map (\<lambda>i. (num_track, lane, i)) [0..<10]) [0..<num_lanes cfg]))
       [0..<num_tracks cfg])"

text \<open>
  \<^verbatim>\<open>_set_lanes\<close>. \<open>draws\<close> is the array returned by
  \<^verbatim>\<open>self.np_random.randint(0, len(self.track), self.num_lanes_changes)\<close>, the seeded
  generator of the environment; \<^verbatim>\<open>np.sort\<close> orders it. \<^verbatim>\<open>np.setdiff1d\<close> returns the
  sorted distinct change points that are not bad.
\<close>

definition set_lanes ::
  "config \<Rightarrow> nat list \<Rightarrow> (nat \<Rightarrow> bool) \<Rightarrow> tile_info list \<Rightarrow> error + tile_info list" where
  "set_lanes cfg draws global_rnd info =
     (if num_lanes_changes cfg > 0 \<and> num_lanes cfg > 1 then
        (let changes = sort draws
         in case changes_bad_of info changes of
              Inl e \<Rightarrow> Inl e
            | Inr changes_bad \<Rightarrow>
              (let changes1 =
                     (if length changes_bad > 0
                      then sort (remdups (filter (\<lambda>c. c \<notin> set changes_bad) changes))
                      else changes)
               in case for_each (walk_step (max_single_lane cfg) changes1 global_rnd)
                         [0..<length info]
                         \<lparr> w_rm_lane = 0, w_lane = 0, w_counter = 0, w_drawn = 0, w_info = info \<rparr> of
                    Inl e \<Rightarrow> Inl e
                  | Inr w \<Rightarrow> for_each override_step (override_range cfg) (w_info w)))
      else Inr info)"


section \<open>Tile occupancy and lookahead graph\<close>

text \<open>
  The parts of the track model that the graph reads: \<^verbatim>\<open>self.info\<close> and, of
  \<^verbatim>\<open>self.tracks\<close>, the length of each sub-track (\<^verbatim>\<open>len(self.tracks[k])\<close> is all the graph
  asks of it); with them the reward clipping bounds, where \<open>None\<close> is the infinite default.
  The last field records how the module was loaded. \<^verbatim>\<open>FrictionDetector._contact\<close> makes
  its two graph calls through the module-level name \<^verbatim>\<open>env\<close>, which only the block under
  \<^verbatim>\<open>if __name__=="__main__"\<close> assigns, to the one environment of the run:
  \<open>module_env_bound\<close> holds when the file runs as a script and fails when the module is
  imported, where the name is unbound.
\<close>

record env =
  self_info :: "tile_info list"
  self_tracks :: "nat list"
  min_episode_reward :: "real option"
  max_episode_reward :: "real option"
  module_env_bound :: bool

text \<open>
  A dict keeps its keys in insertion order, and the loops below iterate it in that
  order, so a dict is an association list: \<^verbatim>\<open>d[k] = v\<close> is \<open>AList.update\<close> (in place for
  a known key, at the end for a new one), \<^verbatim>\<open>del d[k]\<close> is \<open>AList.delete\<close>,
  \<^verbatim>\<open>d[k][l] = v\<close> on a known key \<open>k\<close> is \<open>AList.map_entry\<close>.
  \<open>lane_dirs\<close> is \<^verbatim>\<open>dict[lane] = direction\<close>, \<open>nodes\<close> is \<^verbatim>\<open>dict[id][lane] = direction\<close>.
\<close>

type_synonym lane_dirs = "(nat \<times> int) list"
type_synonym nodes = "(nat \<times> lane_dirs) list"

definition SHOW_NEXT_N_TILES :: nat where
  "SHOW_NEXT_N_TILES = 10"

text \<open>
  \<^verbatim>\<open>id_relative = id; if self.info[id]['track'] > 0: id_relative -=
  len(self.tracks[self.info[id]['track']-1])\<close>, the opening lines of both
  \<^verbatim>\<open>add_current_tile\<close> and \<^verbatim>\<open>_get_next_node\<close>.
\<close>

definition id_relative_of :: "env \<Rightarrow> nat \<Rightarrow> error + int" where
  "id_relative_of e ident =
     (case item (self_info e) (int ident) of
        Inl x \<Rightarrow> Inl x
      | Inr t \<Rightarrow>
        if track t > 0 then
          (case item (self_tracks e) (int (track t) - 1) of
             Inl x \<Rightarrow> Inl x
           | Inr n \<Rightarrow> Inr (int ident - int n))
        else Inr (int ident))"

text \<open>
  The body of \<^verbatim>\<open>for tmp_id in np.where(self.info['intersection_id'] == intersection)[0]\<close>.
  The loop carries \<^verbatim>\<open>direction\<close> along: once a tile of a secondary track that is an end
  or a start has set it to \<open>-1\<close>, it stays \<open>-1\<close> for the tiles that follow. \<open>tmp_id\<close> comes
  from \<^verbatim>\<open>np.where\<close>, so it is a valid row. The test \<^verbatim>\<open>tmp_id == next_id\<close> compares the
  absolute \<open>tmp_id\<close> with the track-relative \<open>next_id\<close>.
\<close>

definition group_step :: "env \<Rightarrow> nat \<Rightarrow> int \<Rightarrow> nat \<Rightarrow> nodes \<times> int \<Rightarrow> nodes \<times> int" where
  "group_step e lane next_id tmp_id = (\<lambda>(next_nodes, direction).
     (let t = self_info e ! tmp_id;
          nn = AList.update tmp_id [] next_nodes
      in if track t > 0 then
           (let d1 = (if tile_end t then - 1 else direction);
                d2 = (if tile_start t then - 1 else d1)
            in (AList.map_entry tmp_id (AList.update 0 d2)
                  (AList.map_entry tmp_id (AList.update 1 d2) nn), d2))
         else if int tmp_id = next_id then
           (AList.map_entry tmp_id (AList.update lane direction) nn, direction)
         else
           (AList.map_entry tmp_id (AList.update 0 0)
              (AList.map_entry tmp_id (AList.update 1 0) nn), direction)))"

text \<open>\<^verbatim>\<open>_get_next_node(id, lane, direction)\<close>.\<close>

definition get_next_node :: "env \<Rightarrow> nat \<Rightarrow> nat \<Rightarrow> int \<Rightarrow> error + nodes" where
  "get_next_node e ident lane direction =
     (case item (self_info e) (int ident) of
        Inl x \<Rightarrow> Inl x
      | Inr t \<Rightarrow>
        if (tile_end t \<and> direction = 1) \<or> (tile_start t \<and> direction = - 1) then Inr []
        else
          (case id_relative_of e ident of
             Inl x \<Rightarrow> Inl x
           | Inr id_relative \<Rightarrow>
             (case item (self_tracks e) (int (track t)) of
                Inl x \<Rightarrow> Inl x
              | Inr n \<Rightarrow>
                (case py_mod (id_relative + direction) (int n) of
                   Inl x \<Rightarrow> Inl x
                 | Inr next_id \<Rightarrow>
                   (case item (self_info e) (int ident - id_relative + next_id) of
                      Inl x \<Rightarrow> Inl x
                    | Inr tn \<Rightarrow>
                      (let intersection = intersection_id tn;
                           successor = nat (int ident - id_relative + next_id)
                       in if intersection \<noteq> - 1 then
                            Inr (fst (fold (group_step e lane next_id)
                                   (filter (\<lambda>j. intersection_id (self_info e ! j) = intersection)
                                      [0..<length (self_info e)])
                                   ([], direction)))
                          else
                            Inr (AList.map_entry successor (AList.update lane direction)
                                   (AList.update successor [] []))))))))"

text \<open>
  The merge of one prediction into the step under construction:
  \<^verbatim>\<open>for k,v in tmp_pred.items(): if k not in next_nodes: next_nodes[k] = {};
  for tmp_lane,tmp_dir in v.items(): next_nodes[k][tmp_lane] = tmp_dir\<close>.
\<close>

definition merge_pred :: "nodes \<Rightarrow> nodes \<Rightarrow> nodes" where
  "merge_pred tmp_pred next_nodes =
     fold (\<lambda>(k, v) nn.
             fold (\<lambda>(tmp_lane, tmp_dir). AList.map_entry k (AList.update tmp_lane tmp_dir)) v
               (if k \<notin> fst ` set nn then AList.update k [] nn else nn))
       tmp_pred next_nodes"

text \<open>
  \<^verbatim>\<open>tmp_preds\<close> of one entry: both directions for the ambiguous direction 0, one
  otherwise. Both calls are made before anything is merged.
\<close>

definition tmp_preds_of :: "env \<Rightarrow> nat \<Rightarrow> nat \<Rightarrow> int \<Rightarrow> error + nodes list" where
  "tmp_preds_of e ident lane direction =
     (if direction = 0 then
        (case get_next_node e ident lane 1 of
           Inl x \<Rightarrow> Inl x
         | Inr a \<Rightarrow>
           (case get_next_node e ident lane (- 1) of
              Inl x \<Rightarrow> Inl x
            | Inr b \<Rightarrow> Inr [a, b]))
      else
        (case get_next_node e ident lane direction of
           Inl x \<Rightarrow> Inl x
         | Inr a \<Rightarrow> Inr [a]))"

text \<open>The entries \<^verbatim>\<open>(id, lane, direction)\<close> of a dict of dicts, in iteration order.\<close>

definition entries :: "nodes \<Rightarrow> (nat \<times> nat \<times> int) list" where
  "entries elems = concat (map (\<lambda>(ident, vals). map (\<lambda>(lane, d). (ident, lane, d)) vals) elems)"

text \<open>One pass of the body of the \<^verbatim>\<open>while\<close> loop: the step built from \<open>elems\<close>.\<close>

definition next_step :: "env \<Rightarrow> nodes \<Rightarrow> error + nodes" where
  "next_step e elems =
     for_each (\<lambda>(ident, lane, direction) nn.
                 case tmp_preds_of e ident lane direction of
                   Inl x \<Rightarrow> Inl x
                 | Inr preds \<Rightarrow> Inr (fold merge_pred preds nn))
       (entries elems) []"

text \<open>
  \<^verbatim>\<open>while len(self._next_nodes) < SHOW_NEXT_N_TILES\<close>: every pass appends the step it
  built, empty or not.
\<close>

function refill :: "env \<Rightarrow> nodes \<Rightarrow> nodes list \<Rightarrow> error + nodes list" where
  "refill e cur nxt =
     (if length nxt < SHOW_NEXT_N_TILES then
        (case next_step e (if length nxt = 0 then cur else last nxt) of
           Inl x \<Rightarrow> Inl x
         | Inr nn \<Rightarrow> refill e cur (nxt @ [nn]))
      else Inr nxt)"
  by pat_completeness auto
termination
  by (relation "measure (\<lambda>(e, cur, nxt). SHOW_NEXT_N_TILES - length nxt)") auto

text \<open>
  The reconciliation of the frontier with the tile just entered (the block
  \<^verbatim>\<open>if len(self._next_nodes) > 0: ...\<close>).
\<close>

definition reconcile :: "nat \<Rightarrow> nat \<Rightarrow> int \<Rightarrow> nodes list \<Rightarrow> nodes list" where
  "reconcile ident lane direction nxt =
     (if length nxt > 0 then
        (case map_of (hd nxt) ident of
           None \<Rightarrow> []
         | Some ls \<Rightarrow>
           if map_of ls lane = Some direction then
             (if length ls > 1
              then AList.map_entry ident (AList.delete lane) (hd nxt) # tl nxt
              else AList.delete ident (hd nxt) # tl nxt)
           else [])
      else nxt)"


text \<open>
  A body of \<^verbatim>\<open>self.road\<close>. A tile body carries \<^verbatim>\<open>id\<close> and \<^verbatim>\<open>lane\<close>; an obstacle body has
  neither attribute, so reading them raises \<^verbatim>\<open>AttributeError\<close>.
\<close>

datatype typename = TILE_NAME | OBSTACLE_NAME

record body =
  body_typename :: typename
  body_id :: "nat option"
  body_lane :: "nat option"
  road_visited :: bool

text \<open>
  The state of the environment that contact events change: the occupancy
  \<^verbatim>\<open>_current_nodes\<close>, the frontier \<^verbatim>\<open>_next_nodes\<close>, the bodies of the road with their
  \<^verbatim>\<open>road_visited\<close> flags, the set \<^verbatim>\<open>tiles\<close> of every wheel (bodies named by their position
  in \<^verbatim>\<open>self.road\<close>), \<^verbatim>\<open>reward\<close> and \<^verbatim>\<open>tile_visited_count\<close>. Colours and the time stamp
  \<^verbatim>\<open>last_touch_with_track\<close> are left out.
\<close>

record sim =
  current_nodes :: nodes
  next_nodes :: "nodes list"
  road :: "body list"
  wheel_tiles :: "nat \<Rightarrow> nat set"
  reward :: real
  tile_visited_count :: int

text \<open>
  \<^verbatim>\<open>add_current_tile(id, lane)\<close>. The test on floating-point angles
  \<^verbatim>\<open>abs((self.track[id,0,1] - self.car.hull.angle + np.pi/2) % (np.pi*2)) > np.pi\<close> is the
  input \<open>reversed\<close>. The unused locals \<^verbatim>\<open>next_id\<close> and \<^verbatim>\<open>last_id\<close> are computed first and
  can raise.
\<close>

definition add_current_tile :: "env \<Rightarrow> bool \<Rightarrow> nat \<Rightarrow> nat \<Rightarrow> sim \<Rightarrow> error + sim" where
  "add_current_tile e reversed ident lane s =
     (case id_relative_of e ident of
        Inl x \<Rightarrow> Inl x
      | Inr id_relative \<Rightarrow>
        (case item (self_info e) (int ident) of
           Inl x \<Rightarrow> Inl x
         | Inr t \<Rightarrow>
           (case item (self_tracks e) (int (track t)) of
              Inl x \<Rightarrow> Inl x
            | Inr n \<Rightarrow>
              (case py_mod (id_relative + 1) (int n) of
                 Inl x \<Rightarrow> Inl x
               | Inr next_id \<Rightarrow>
                 (case py_mod (id_relative - 1) (int n) of
                    Inl x \<Rightarrow> Inl x
                  | Inr last_id \<Rightarrow>
                    (let direction = (if reversed then - 1 else 1);
                         cur = (if ident \<in> fst ` set (current_nodes s)
                                then AList.map_entry ident (AList.update lane direction)
                                       (current_nodes s)
                                else AList.update ident [(lane, direction)] (current_nodes s));
                         nxt = filter (\<lambda>step. length step > 0)
                                 (reconcile ident lane direction (next_nodes s))
                     in case refill e cur nxt of
                          Inl x \<Rightarrow> Inl x
                        | Inr nxt' \<Rightarrow>
                          Inr (s\<lparr>current_nodes := cur, next_nodes := nxt'\<rparr>)))))))"

text \<open>\<^verbatim>\<open>remove_current_tile(id, lane)\<close>; \<^verbatim>\<open>del\<close> of a missing key raises \<^verbatim>\<open>KeyError\<close>.\<close>

definition remove_current_tile :: "nat \<Rightarrow> nat \<Rightarrow> sim \<Rightarrow> error + sim" where
  "remove_current_tile ident lane s =
     (case map_of (current_nodes s) ident of
        None \<Rightarrow> Inr s
      | Some ls \<Rightarrow>
        (case (if length ls > 1
               then (if lane \<in> fst ` set ls
                     then Inr (AList.map_entry ident (AList.delete lane) (current_nodes s))
                     else Inl KeyError)
               else Inr (AList.delete ident (current_nodes s))) of
           Inl x \<Rightarrow> Inl x
         | Inr cur \<Rightarrow>
           Inr (s\<lparr>current_nodes := cur,
                  next_nodes := (if length cur = 0 then [] else next_nodes s)\<rparr>)))"

text \<open>
  A contact reported by the physics engine: whether it begins or ends, which body of the
  road (if any) carries \<^verbatim>\<open>road_friction\<close>, which wheel (if any) is the other body, the
  only kind of body with a \<^verbatim>\<open>tiles\<close> attribute, and the heading test of
  \<^verbatim>\<open>add_current_tile\<close> at that moment.
\<close>

record contact_event =
  is_begin :: bool
  tile_body :: "nat option"
  obj_wheel :: "nat option"
  heading_reversed :: bool

definition OBSTACLE_VALUE :: real where
  "OBSTACLE_VALUE = - 10"

text \<open>\<^verbatim>\<open>np.clip(x, lo, hi)\<close>, with \<open>None\<close> for an infinite bound.\<close>

definition clip :: "real \<Rightarrow> real option \<Rightarrow> real option \<Rightarrow> real" where
  "clip x lo hi =
     (let y = (case lo of None \<Rightarrow> x | Some l \<Rightarrow> max x l)
      in case hi of None \<Rightarrow> y | Some h \<Rightarrow> min y h)"

text \<open>
  The visited test of \<^verbatim>\<open>_contact\<close> on a begin contact:
  \<^verbatim>\<open>if not tile.road_visited: tile.road_visited = True; ...; self.env.reward +=
  reward_episode; self.env.tile_visited_count += 1\<close>. \<^verbatim>\<open>len(self.env.track)\<close> is the number
  of rows of \<^verbatim>\<open>info\<close>.
\<close>

definition credit_visit :: "env \<Rightarrow> nat \<Rightarrow> sim \<Rightarrow> error + sim" where
  "credit_visit e b s =
     (if \<not> road_visited (road s ! b) then
        (if length (self_info e) = 0 then Inl ZeroDivisionError
         else Inr (s\<lparr>road := (road s)[b := (road s ! b)\<lparr>road_visited := True\<rparr>],
                     reward := reward s +
                       clip (1000 / real (length (self_info e)))
                         (min_episode_reward e) (max_episode_reward e),
                     tile_visited_count := tile_visited_count s + 1\<rparr>))
      else Inr s)"

text \<open>
  \<^verbatim>\<open>FrictionDetector._contact(contact, begin)\<close>. The source reaches the environment
  through the module-level name \<^verbatim>\<open>env\<close> for the two graph calls and through
  \<^verbatim>\<open>self.env\<close> elsewhere. Where the name is bound it is the same object as
  \<^verbatim>\<open>self.env\<close>; where it is unbound, looking it up raises \<^verbatim>\<open>NameError\<close>: on a begin
  contact with a tile before anything else is changed, on an end contact after
  \<^verbatim>\<open>obj.tiles.remove(tile)\<close> and before the attributes of the tile are read.
\<close>

definition contact :: "env \<Rightarrow> contact_event \<Rightarrow> sim \<Rightarrow> error + sim" where
  "contact e c s =
     (case tile_body c of
        None \<Rightarrow> Inr s
      | Some b \<Rightarrow>
        if \<not> b < length (road s) then Inr s
        else
          (case obj_wheel c of
             None \<Rightarrow> Inr s
           | Some w \<Rightarrow>
             (let tile = road s ! b;
                  s1 = (if body_typename tile = OBSTACLE_NAME
                        then s\<lparr>reward := reward s + OBSTACLE_VALUE\<rparr> else s)
              in if is_begin c then
                   (case (if body_typename tile = TILE_NAME then
                            (if \<not> module_env_bound e then Inl NameError
                             else
                               (case (body_id tile, body_lane tile) of
                                  (Some ident, Some lane) \<Rightarrow>
                                    add_current_tile e (heading_reversed c) ident lane s1
                                | _ \<Rightarrow> Inl AttributeError))
                          else Inr s1) of
                      Inl x \<Rightarrow> Inl x
                    | Inr s2 \<Rightarrow>
                      credit_visit e b
                        (s2\<lparr>wheel_tiles := (wheel_tiles s2)(w := insert b (wheel_tiles s2 w))\<rparr>))
                 else
                   (if b \<notin> wheel_tiles s1 w then Inl KeyError
                    else if \<not> module_env_bound e then Inl NameError
                    else
                      (case (body_id tile, body_lane tile) of
                         (Some ident, Some lane) \<Rightarrow>
                           remove_current_tile ident lane
                             (s1\<lparr>wheel_tiles := (wheel_tiles s1)(w := wheel_tiles s1 w - {b})\<rparr>)
                       | _ \<Rightarrow> Inl AttributeError)))))"

text \<open>A run of contact events; the first exception ends it.\<close>

definition contacts :: "env \<Rightarrow> contact_event list \<Rightarrow> sim \<Rightarrow> error + sim" where
  "contacts e cs s = for_each (contact e) cs s"

section \<open>Tile construction and the retry loop of \<^verbatim>\<open>reset\<close>\<close>

text \<open>
  The body of \<^verbatim>\<open>for j in range(len(self.track))\<close> in \<^verbatim>\<open>_create_track\<close>, reduced to the
  bodies it appends to \<^verbatim>\<open>self.road\<close> and to its \<^verbatim>\<open>raise\<close>. For a start or end tile the
  source searches candidate points \<^verbatim>\<open>p3\<close> with floating-point distances;
  \<open>candidates j lane\<close> is \<^verbatim>\<open>len(p3)\<close> when that search ends.
\<close>

definition tile_bodies ::
  "config \<Rightarrow> (nat \<Rightarrow> nat \<Rightarrow> nat) \<Rightarrow> tile_info list \<Rightarrow> nat \<Rightarrow> body list \<Rightarrow> error + body list" where
  "tile_bodies cfg candidates info j bodies =
     for_each (\<lambda>lane bs.
        case item info (int j) of
          Inl x \<Rightarrow> Inl x
        | Inr t \<Rightarrow>
          (case item (lanes t) (int lane) of
             Inl x \<Rightarrow> Inl x
           | Inr enabled \<Rightarrow>
             if enabled then
               (if (tile_end t \<or> tile_start t) \<and> candidates j lane = 0 then Inl RuntimeError
                else Inr (bs @ [\<lparr> body_typename = TILE_NAME, body_id = Some j,
                                  body_lane = Some lane, road_visited = False \<rparr>]))
             else Inr bs))
       [0..<num_lanes cfg] bodies"

definition create_tiles ::
  "config \<Rightarrow> (nat \<Rightarrow> nat \<Rightarrow> nat) \<Rightarrow> tile_info list \<Rightarrow> error + body list" where
  "create_tiles cfg candidates info =
     for_each (tile_bodies cfg candidates info) [0..<length info] []"

text \<open>
  What one call of \<^verbatim>\<open>_create_track\<close> draws and computes outside the model: whether the
  \<open>k\<close>-th call of \<^verbatim>\<open>_get_track\<close> returned a non-empty track, whether \<^verbatim>\<open>_remove_roads\<close>
  returned something other than \<^verbatim>\<open>False\<close>, the rows \<^verbatim>\<open>_create_info\<close> computed, the two
  random sources of \<^verbatim>\<open>_set_lanes\<close>, and the candidate counts.
\<close>

record attempt =
  got_track :: "nat \<Rightarrow> bool"
  roads_ok :: bool
  made_info :: "tile_info list"
  lane_draws :: "nat list"
  lane_rnd :: "nat \<Rightarrow> bool"
  p3_found :: "nat \<Rightarrow> nat \<Rightarrow> nat"

text \<open>
  \<^verbatim>\<open>_create_track\<close>: \<open>Inr False\<close> is its falsy return, \<open>Inr True\<close> its \<^verbatim>\<open>return True\<close>,
  \<open>Inl\<close> an exception leaving it. \<^verbatim>\<open>_remove_roads\<close> returns \<^verbatim>\<open>None\<close> for a single track.
  Border polygons and obstacles are not modelled.
\<close>

definition create_track :: "config \<Rightarrow> attempt \<Rightarrow> error + bool" where
  "create_track cfg a =
     (if \<not> list_all (got_track a) [0..<num_tracks cfg] then Inr False
      else if num_tracks cfg > 1 \<and> \<not> roads_ok a then Inr False
      else
        (case set_lanes cfg (lane_draws a) (lane_rnd a) (create_info_lanes (made_info a)) of
           Inl x \<Rightarrow> Inl x
         | Inr info \<Rightarrow>
           (case create_tiles cfg (p3_found a) info of
              Inl x \<Rightarrow> Inl x
            | Inr bodies \<Rightarrow> Inr True)))"

text \<open>
  The loop of \<^verbatim>\<open>reset\<close>: \<^verbatim>\<open>while True: success = self._create_track(); if success: break\<close>.
  There is no \<^verbatim>\<open>try\<close> around the call. \<open>attempts k\<close> is what the \<open>k\<close>-th call meets. The
  result is the exception that left \<^verbatim>\<open>reset\<close>, or the number of the call that
  succeeded; \<open>None\<close> is a loop that never ends.
\<close>

partial_function (option) reset_loop :: "config \<Rightarrow> (nat \<Rightarrow> attempt) \<Rightarrow> nat \<Rightarrow> (error + nat) option" where
  "reset_loop cfg attempts k =
     (case create_track cfg (attempts k) of
        Inl x \<Rightarrow> Some (Inl x)
      | Inr success \<Rightarrow> if success then Some (Inr k) else reset_loop cfg attempts (Suc k))"

definition reset :: "config \<Rightarrow> (nat \<Rightarrow> attempt) \<Rightarrow> (error + nat) option" where
  "reset cfg attempts = reset_loop cfg attempts 0"


section \<open>Path synthesizer: the control flow of \<^verbatim>\<open>_get_track\<close>\<close>

text \<open>
  The cursor \<^verbatim>\<open>(x, y, beta)\<close> and the checkpoints are floating-point numbers. Of one pass
  of the loop \<^verbatim>\<open>while 1\<close> the model keeps what decides the control flow: the sign of
  \<^verbatim>\<open>alpha = math.atan2(y, x)\<close> at the top of the pass, and, of the point appended to
  \<^verbatim>\<open>track\<close>, whether its first component is above \<^verbatim>\<open>self.start_alpha\<close> (the later test
  \<^verbatim>\<open>track[i][0] > self.start_alpha\<close>; an angle is no NaN, so \<^verbatim>\<open><=\<close> is its negation).
  Both are given per pass by \<open>obs\<close>, the number of the pass being the number of points
  appended so far. The two searches inside a pass (the destination checkpoint, the
  normalisation of \<^verbatim>\<open>beta\<close>) are taken to end.
\<close>

datatype alpha_sign = Negative | Null | Positive

record cursor =
  laps :: int
  visited_other_side :: bool
  no_freeze :: int
  points :: "bool list"

text \<open>One pass up to and including \<^verbatim>\<open>track.append(...)\<close>.\<close>

definition cursor_pass :: "(nat \<Rightarrow> alpha_sign \<times> bool) \<Rightarrow> cursor \<Rightarrow> cursor" where
  "cursor_pass obs c =
     (let alpha = fst (obs (length (points c)));
          lap = (visited_other_side c \<and> alpha = Positive);
          laps1 = (if lap then laps c + 1 else laps c);
          side1 = (if lap then False else visited_other_side c);
          side2 = (if alpha = Negative then True else side1)
      in c\<lparr>laps := laps1, visited_other_side := side2,
            points := points c @ [snd (obs (length (points c)))]\<rparr>)"

text \<open>
  The loop with its two exits: \<^verbatim>\<open>if laps > 4: break\<close>, then \<^verbatim>\<open>no_freeze -= 1\<close> and
  \<^verbatim>\<open>if no_freeze==0: break\<close>.
\<close>

partial_function (option) cursor_loop :: "(nat \<Rightarrow> alpha_sign \<times> bool) \<Rightarrow> cursor \<Rightarrow> cursor option" where
  "cursor_loop obs c =
     (if laps (cursor_pass obs c) > 4 then Some (cursor_pass obs c)
      else if no_freeze (cursor_pass obs c) - 1 = 0
      then Some ((cursor_pass obs c)\<lparr>no_freeze := no_freeze (cursor_pass obs c) - 1\<rparr>)
      else cursor_loop obs ((cursor_pass obs c)\<lparr>no_freeze := no_freeze (cursor_pass obs c) - 1\<rparr>))"

text \<open>The locals at the entry of the loop: \<^verbatim>\<open>laps = 0\<close>, \<^verbatim>\<open>track = []\<close>, \<^verbatim>\<open>no_freeze = 2500\<close>.\<close>

definition cursor_start :: cursor where
  "cursor_start = \<lparr> laps = 0, visited_other_side = False, no_freeze = 2500, points = [] \<rparr>"

text \<open>
  The backward search for the closed loop: \<^verbatim>\<open>i -= 1; if i==0: return False\<close>, then the
  test \<^verbatim>\<open>pass_through_start\<close>, which sets \<^verbatim>\<open>i2\<close> the first time and \<^verbatim>\<open>i1\<close> the second.
  \<open>Inr None\<close> is \<^verbatim>\<open>return False\<close>, \<open>Inr (Some (i1, i2))\<close> the \<^verbatim>\<open>break\<close>.
\<close>

function find_loop :: "bool list \<Rightarrow> int \<Rightarrow> int \<Rightarrow> error + (int \<times> int) option" where
  "find_loop pts i i2 =
     (if i - 1 = 0 then Inr None
      else
        (case item pts (i - 1) of
           Inl x \<Rightarrow> Inl x
         | Inr here \<Rightarrow>
           if here then
             (case item pts (i - 1 - 1) of
                Inl x \<Rightarrow> Inl x
              | Inr before \<Rightarrow>
                if \<not> before \<and> i2 = - 1 then find_loop pts (i - 1) (i - 1)
                else if \<not> before then Inr (Some (i - 1, i2))
                else find_loop pts (i - 1) i2)
           else find_loop pts (i - 1) i2))"
  by pat_completeness auto
termination
proof (relation "measure (\<lambda>(pts, i, i2). nat (i + int (length pts) + 1))")
  show "wf (measure (\<lambda>(pts, i, i2). nat (i + int (length pts) + 1)))" by simp
qed (auto simp: item_def Let_def split: if_splits)

text \<open>
  \<^verbatim>\<open>_get_track\<close> from the loop on. \<open>Inr None\<close> is \<^verbatim>\<open>return False\<close>, \<open>Inr (Some n)\<close> a returned
  track of \<open>n\<close> segments. \<^verbatim>\<open>track[i1:i2-1]\<close> is empty when \<open>i2 - 1 \<le> i1\<close>, and then
  \<^verbatim>\<open>track[0]\<close> raises. \<open>glued i1 i2\<close> is the floating-point test that
  \<^verbatim>\<open>well_glued_together\<close> is at most \<^verbatim>\<open>TRACK_DETAIL_STEP\<close>. \<open>None\<close> is a cursor loop that
  never ends.
\<close>

definition get_track ::
  "(nat \<Rightarrow> alpha_sign \<times> bool) \<Rightarrow> (int \<Rightarrow> int \<Rightarrow> bool) \<Rightarrow> (error + nat option) option" where
  "get_track obs glued =
     (case cursor_loop obs cursor_start of
        None \<Rightarrow> None
      | Some c \<Rightarrow>
        Some (case find_loop (points c) (int (length (points c))) (- 1) of
                Inl x \<Rightarrow> Inl x
              | Inr None \<Rightarrow> Inr None
              | Inr (Some (i1, i2)) \<Rightarrow>
                if i2 - 1 - i1 \<le> 0 then Inl IndexError
                else if \<not> glued i1 i2 then Inr None
                else Inr (Some (nat (i2 - 1 - i1)))))"

section \<open>Predicates and concrete inputs used in the statements\<close>

subsection \<open>Lane masks\<close>

text \<open>A lane mask with two entries of which at least one is set.\<close>

definition one_lane_kept :: "bool list \<Rightarrow> bool" where
  "one_lane_kept ls = (ls = [True, True] \<or> ls = [False, True] \<or> ls = [True, False])"

text \<open>
  The state of the lane masks when the walk of \<^verbatim>\<open>_set_lanes\<close> is about to visit tile \<open>k\<close>:
  the tiles before \<open>k\<close> keep a lane, the tiles from \<open>k\<close> on are untouched.
\<close>

definition walked :: "nat \<Rightarrow> tile_info list \<Rightarrow> bool" where
  "walked k info = (\<forall>i < length info.
     (if i < k then one_lane_kept (lanes (info ! i)) else lanes (info ! i) = [True, True]))"

definition all_kept :: "tile_info list \<Rightarrow> bool" where
  "all_kept info = (\<forall>i < length info. one_lane_kept (lanes (info ! i)))"

text \<open>A row of a closed main track away from every junction, as \<^verbatim>\<open>_create_info\<close> leaves it.\<close>

definition plain_tile :: tile_info where
  "plain_tile = \<lparr> track = 0, tile_end = False, tile_start = False, intersection_id = - 1,
                  lanes = [True, True] \<rparr>"

text \<open>\<open>n\<close> rows that all belong to the main track, none of them a start or an end.\<close>

definition main_only :: "nat \<Rightarrow> tile_info list \<Rightarrow> bool" where
  "main_only n info = (length info = n \<and>
     (\<forall>i < n. track (info ! i) = 0 \<and> \<not> tile_end (info ! i) \<and> \<not> tile_start (info ! i)
        \<and> length (lanes (info ! i)) = 2))"

text \<open>
  The walk of \<^verbatim>\<open>_set_lanes\<close> over a main track of \<open>n\<close> tiles with the single change point
  \<open>c\<close> and the dropped lane \<open>l\<close>, when it is about to visit tile \<open>k\<close>.
\<close>

definition walk_inv :: "nat \<Rightarrow> nat \<Rightarrow> nat \<Rightarrow> nat \<Rightarrow> walk \<Rightarrow> bool" where
  "walk_inv n c l k w =
     (main_only n (w_info w) \<and> w_rm_lane w = (if c < k then 1 else 0)
      \<and> (if c < k then w_lane w = l \<and> w_counter w = k - c
          else w_drawn w = 0 \<and> w_counter w = 0)
      \<and> (\<forall>i < n. lanes (w_info w ! i) =
            (if c \<le> i \<and> i < k then [True, True][l := False] else [True, True])))"

text \<open>
  Two lanes, one lane change, one track, the default run length:
  \<^verbatim>\<open>CarRacing(num_tracks=1, num_lanes=2, num_lanes_changes=1)\<close>.
\<close>

definition cfg_lanes :: config where
  "cfg_lanes = set_config 1 2 1 0"

text \<open>The defaults of \<^verbatim>\<open>_set_config\<close>: one track, one lane, no lane change.\<close>

definition cfg_default :: config where
  "cfg_default = set_config 1 1 0 0"

text \<open>A closed single track of 300 tiles.\<close>

definition track300 :: "tile_info list" where
  "track300 = create_info_lanes (replicate 300 plain_tile)"

subsection \<open>Track models\<close>

text \<open>
  In each of the three models the file runs as a script, so that the module-level name
  \<^verbatim>\<open>env\<close> is bound.
\<close>

text \<open>
  Two sub-tracks of 300 and 280 tiles that cross at an x-junction: tile 150 of the main
  track and tile 450 (relative index 150) of the second track form the intersection
  group 150.
\<close>

definition junction_row :: "nat \<Rightarrow> tile_info" where
  "junction_row j = \<lparr> track = (if j < 300 then 0 else 1), tile_end = False, tile_start = False,
      intersection_id = (if j = 150 \<or> j = 450 then 150 else - 1), lanes = [True, True] \<rparr>"

definition env_junction :: env where
  "env_junction = \<lparr> self_info = map junction_row [0..<580], self_tracks = [300, 280],
      min_episode_reward = None, max_episode_reward = None,
      module_env_bound = True \<rparr>"

text \<open>
  Two sub-tracks of 300 and 280 tiles where the second one was cut: it starts at tile
  300 and ends at tile 579, and no tile carries an intersection group.
\<close>

definition spur_row :: "nat \<Rightarrow> tile_info" where
  "spur_row j = \<lparr> track = (if j < 300 then 0 else 1), tile_end = (j = 579), tile_start = (j = 300),
      intersection_id = - 1, lanes = [True, True] \<rparr>"

definition env_spur :: env where
  "env_spur = \<lparr> self_info = map spur_row [0..<580], self_tracks = [300, 280],
      min_episode_reward = None, max_episode_reward = None,
      module_env_bound = True \<rparr>"

text \<open>A single closed track of 300 tiles, rewards not clipped.\<close>

definition env_loop :: env where
  "env_loop = \<lparr> self_info = track300, self_tracks = [300],
      min_episode_reward = None, max_episode_reward = None,
      module_env_bound = True \<rparr>"

subsection \<open>Simulation states\<close>

text \<open>The state \<^verbatim>\<open>reset\<close> leaves behind, with the bodies of the road it created.\<close>

definition sim_reset :: "body list \<Rightarrow> sim" where
  "sim_reset bodies = \<lparr> current_nodes = [], next_nodes = [], road = bodies,
      wheel_tiles = (\<lambda>w. {}), reward = 0, tile_visited_count = 0 \<rparr>"

text \<open>
  A frontier that follows the track forward: one step per tile from \<open>a\<close> to \<open>b - 1\<close>, each
  with the lanes and directions \<open>ls\<close>.
\<close>

definition lane_path :: "lane_dirs \<Rightarrow> nat \<Rightarrow> nat \<Rightarrow> nodes list" where
  "lane_path ls a b = map (\<lambda>k. [(k, ls)]) [a..<b]"

definition both_lanes :: lane_dirs where
  "both_lanes = [(0, 1), (1, 1)]"

text \<open>The state after the vehicle entered tile 5 on lane 0 of the closed track.\<close>

definition loop_entered :: sim where
  "loop_entered = (sim_reset [])\<lparr>current_nodes := [(5, [(0, 1)])], next_nodes := lane_path [(0, 1)] 6 16\<rparr>"

text \<open>
  On the cut track: the state after the vehicle entered tile 578 on lane 0, and the
  state after it went on to tile 579, the end of the sub-track, with tile 578 still
  under a wheel.
\<close>

definition spur_entered :: sim where
  "spur_entered = (sim_reset [])\<lparr>current_nodes := [(578, [(0, 1)])],
                                  next_nodes := [(579, [(0, 1)])] # replicate 9 []\<rparr>"

definition spur_at_end :: sim where
  "spur_at_end = (sim_reset [])\<lparr>current_nodes := [(578, [(0, 1)]), (579, [(0, 1)])],
                                 next_nodes := [(579, [(0, 1)])] # replicate 9 []\<rparr>"

text \<open>The body that \<^verbatim>\<open>_create_track\<close> makes for lane \<open>l\<close> of tile \<open>j\<close>.\<close>

definition tile_of :: "nat \<Rightarrow> nat \<Rightarrow> body" where
  "tile_of j l = \<lparr> body_typename = TILE_NAME, body_id = Some j, body_lane = Some l,
                   road_visited = False \<rparr>"

text \<open>Two lanes and no lane change: \<^verbatim>\<open>CarRacing(num_lanes=2)\<close>.\<close>

definition cfg_two :: config where
  "cfg_two = set_config 1 2 0 0"

text \<open>
  The road of the closed track of 300 tiles with two lanes: tile \<open>j\<close> has the bodies
  \<open>2 * j\<close> (lane 0) and \<open>2 * j + 1\<close> (lane 1).
\<close>

definition road_two_lanes :: "body list" where
  "road_two_lanes = map (\<lambda>i. tile_of (i div 2) (i mod 2)) [0..<600]"

text \<open>Wheel 0 begins to touch body \<open>b\<close> of the road while the vehicle heads forward.\<close>

definition wheel_enters :: "nat \<Rightarrow> contact_event" where
  "wheel_enters b = \<lparr> is_begin = True, tile_body = Some b, obj_wheel = Some 0,
                       heading_reversed = False \<rparr>"

text \<open>
  The states after wheel 0 touched the lane 0 body of tile 5, and after it then touched
  the lane 1 body of the same tile.
\<close>

definition after_first_lane :: sim where
  "after_first_lane =
     \<lparr> current_nodes = [(5, [(0, 1)])], next_nodes = lane_path [(0, 1)] 6 16,
       road = road_two_lanes[10 := (tile_of 5 0)\<lparr>road_visited := True\<rparr>],
       wheel_tiles = (\<lambda>w. {})(0 := {10}), reward = 1000 / 300, tile_visited_count = 1 \<rparr>"

definition after_second_lane :: sim where
  "after_second_lane =
     \<lparr> current_nodes = [(5, both_lanes)], next_nodes = lane_path both_lanes 6 16,
       road = road_two_lanes[10 := (tile_of 5 0)\<lparr>road_visited := True\<rparr>,
                            11 := (tile_of 5 1)\<lparr>road_visited := True\<rparr>],
       wheel_tiles = (\<lambda>w. {})(0 := {10, 11}), reward = 1000 / 300 + 1000 / 300,
       tile_visited_count = 2 \<rparr>"

subsection \<open>Generation attempts\<close>

text \<open>Two tracks, one lane, no lane change: \<^verbatim>\<open>CarRacing(num_tracks=2)\<close>.\<close>

definition cfg_spur :: config where
  "cfg_spur = set_config 2 1 0 0"

text \<open>
  What the calls of \<^verbatim>\<open>_create_track\<close> meet in one \<^verbatim>\<open>reset\<close>: the first call gets no
  closed track from \<^verbatim>\<open>_get_track\<close>; every later call gets the two tracks of the cut layout
  above, and the candidate search finds no point for the end tile 579.
\<close>

definition attempts_spur :: "nat \<Rightarrow> attempt" where
  "attempts_spur k =
     \<lparr> got_track = (\<lambda>i. k \<noteq> 0), roads_ok = True, made_info = map spur_row [0..<580],
       lane_draws = [], lane_rnd = (\<lambda>i. False),
       p3_found = (\<lambda>j l. if j = 579 then 0 else 3) \<rparr>"

text \<open>Every lane mask has two entries.\<close>

definition two_masks :: "tile_info list \<Rightarrow> bool" where
  "two_masks info = (\<forall>i < length info. length (lanes (info ! i)) = 2)"

subsection \<open>A run of the path synthesizer\<close>

text \<open>
  A cursor that completes four laps of 300 passes each and then stays in the upper half
  plane. \<open>in_lower_half k\<close>: \<^verbatim>\<open>alpha < 0\<close> at pass \<open>k\<close>. \<open>before_seam k\<close>: the point appended
  at pass \<open>k\<close> is not above \<^verbatim>\<open>self.start_alpha\<close>, which happens in the 13 passes before the
  cursor crosses the start angle.
\<close>

definition in_lower_half :: "nat \<Rightarrow> bool" where
  "in_lower_half k = ((150 \<le> k \<and> k < 300) \<or> (450 \<le> k \<and> k < 600) \<or> (750 \<le> k \<and> k < 900)
     \<or> (1050 \<le> k \<and> k < 1200))"

definition before_seam :: "nat \<Rightarrow> bool" where
  "before_seam k = ((275 \<le> k \<and> k < 288) \<or> (575 \<le> k \<and> k < 588) \<or> (875 \<le> k \<and> k < 888)
     \<or> (1175 \<le> k \<and> k < 1188))"

definition stuck_obs :: "nat \<Rightarrow> alpha_sign \<times> bool" where
  "stuck_obs k =
     (if k = 0 then Null else if in_lower_half k then Negative else Positive, \<not> before_seam k)"

text \<open>
  The locals of that run when pass \<open>k\<close> begins: the laps counted, the flag
  \<^verbatim>\<open>visited_other_side\<close>, the budget left and the points appended so far.
\<close>

definition stuck_laps :: "nat \<Rightarrow> int" where
  "stuck_laps k = (if k \<le> 300 then 0 else if k \<le> 600 then 1 else if k \<le> 900 then 2
     else if k \<le> 1200 then 3 else 4)"

definition stuck_side :: "nat \<Rightarrow> bool" where
  "stuck_side k = ((150 < k \<and> k \<le> 300) \<or> (450 < k \<and> k \<le> 600) \<or> (750 < k \<and> k \<le> 900)
     \<or> (1050 < k \<and> k \<le> 1200))"

definition stuck_at :: "nat \<Rightarrow> cursor" where
  "stuck_at k = \<lparr> laps = stuck_laps k, visited_other_side = stuck_side k,
                  no_freeze = 2500 - int k, points = map (\<lambda>j. \<not> before_seam j) [0..<k] \<rparr>"

text \<open>The perpendicular gap test of \<^verbatim>\<open>_get_track\<close> passing for every window.\<close>

definition always_glued :: "int \<Rightarrow> int \<Rightarrow> bool" where
  "always_glued i1 i2 = True"

subsection \<open>Successors inside an intersection group\<close>

text \<open>
  What the loop over an intersection group stores for tile \<open>t\<close> when it reaches it with
  the direction \<open>d\<close>, and the direction it carries on to the next tile of the group.
\<close>

definition next_value :: "env \<Rightarrow> nat \<Rightarrow> int \<Rightarrow> nat \<Rightarrow> int \<Rightarrow> lane_dirs" where
  "next_value e la next_id t d =
     (if track (self_info e ! t) > 0 then
        (if tile_end (self_info e ! t) \<or> tile_start (self_info e ! t)
         then [(1, - 1), (0, - 1)] else [(1, d), (0, d)])
      else if int t = next_id then [(la, d)] else [(1, 0), (0, 0)])"

definition next_direction :: "env \<Rightarrow> nat \<Rightarrow> int \<Rightarrow> int" where
  "next_direction e t d =
     (if track (self_info e ! t) > 0 \<and> (tile_end (self_info e ! t) \<or> tile_start (self_info e ! t))
      then - 1 else d)"

section \<open>Lane assigner: proofs\<close>

lemma for_each_invariant:
  assumes "for_each f xs s = Inr s'" and "P s"
    and "\<And>x t t'. x \<in> set xs \<Longrightarrow> P t \<Longrightarrow> f x t = Inr t' \<Longrightarrow> P t'"
  shows "P s'"
  using assms
proof (induction xs arbitrary: s)
  case Nil
  then show ?case by simp
next
  case (Cons x xs)
  from Cons.prems(1) obtain t where t: "f x s = Inr t" and rest: "for_each f xs t = Inr s'"
    by (auto split: sum.splits)
  have "P t" using Cons.prems(2) t Cons.prems(3) [of x s t] by simp
  moreover have "\<And>y u u'. y \<in> set xs \<Longrightarrow> P u \<Longrightarrow> f y u = Inr u' \<Longrightarrow> P u'"
    using Cons.prems(3) by (meson list.set_intros(2))
  ultimately show ?case using Cons.IH [OF rest] by blast
qed

lemma for_each_upt_invariant:
  assumes "for_each f [i..<n] s = Inr s'" and "I i s"
    and "\<And>j t t'. i \<le> j \<Longrightarrow> j < n \<Longrightarrow> I j t \<Longrightarrow> f j t = Inr t' \<Longrightarrow> I (Suc j) t'"
    and "i \<le> n"
  shows "I n s'"
  using assms
proof (induction "n - i" arbitrary: i s)
  case 0
  then show ?case by simp
next
  case (Suc d)
  then have lt: "i < n" by simp
  then have unf: "[i..<n] = i # [Suc i..<n]" by (simp add: upt_conv_Cons)
  from Suc.prems(1) obtain t where t: "f i s = Inr t" and rest: "for_each f [Suc i..<n] t = Inr s'"
    unfolding unf by (auto split: sum.splits)
  have "I (Suc i) t" using Suc.prems(2,3) t lt by simp
  moreover have "d = n - Suc i" using Suc.hyps(2) by simp
  ultimately show ?case using Suc.hyps(1) [of "Suc i" t] rest Suc.prems(3) lt by simp
qed

lemma set_lane_length: "set_lane i l v info = Inr info' \<Longrightarrow> length info' = length info"
  by (auto simp: set_lane_def split: if_splits)

lemma set_lane_nth:
  "set_lane i l v info = Inr info' \<Longrightarrow> j < length info \<Longrightarrow>
   lanes (info' ! j) = (if j = i then (lanes (info ! i))[l := v] else lanes (info ! j))"
  by (auto simp: set_lane_def split: if_splits)

lemma set_lane_bounds: "set_lane i l v info = Inr info' \<Longrightarrow> i < length info \<and> l < length (lanes (info ! i))"
  by (auto simp: set_lane_def split: if_splits)

lemma walk_step_walked:
  assumes "walk_step msl changes rnd i w = Inr w'" and "walked i (w_info w)"
  shows "walked (Suc i) (w_info w') \<and> length (w_info w') = length (w_info w)"
proof (cases "(w_rm_lane w + (if i \<in> set changes then 1 else 0)) mod 2 \<noteq> 0")
  case False
  then have "w_info w' = w_info w"
    using assms(1) by (auto simp: walk_step_def Let_def split: sum.splits if_splits)
  then show ?thesis using assms(2) by (auto simp: walked_def one_lane_kept_def less_Suc_eq)
next
  case True
  then obtain l where sl: "set_lane i l False (w_info w) = Inr (w_info w')"
    using assms(1) by (auto simp: walk_step_def Let_def split: sum.splits if_splits)
  note b = set_lane_bounds [OF sl] and len = set_lane_length [OF sl]
  have here: "lanes (w_info w ! i) = [True, True]" using assms(2) b by (auto simp: walked_def)
  then have l2: "l < 2" using b by simp
  have new: "one_lane_kept ([True, True][l := False])"
    using l2 by (cases l) (auto simp: one_lane_kept_def less_Suc_eq numeral_2_eq_2)
  show ?thesis
    unfolding walked_def
    using assms(2) len set_lane_nth [OF sl] here new
    by (auto simp: walked_def less_Suc_eq)
qed

lemma one_lane_kept_set_True:
  "one_lane_kept ls \<Longrightarrow> one_lane_kept (ls[l := True])"
  by (cases l; cases "l - 1") (auto simp: one_lane_kept_def)

lemma set_lane_True_all_kept:
  assumes "set_lane i l True info = Inr info'" and "all_kept info"
  shows "all_kept info'"
  using assms set_lane_nth [OF assms(1)] set_lane_length [OF assms(1)]
  by (auto simp: all_kept_def one_lane_kept_set_True)

lemma override_step_all_kept:
  assumes "override_step x info = Inr info'" and "all_kept info"
  shows "all_kept info'"
proof -
  obtain t l i where x: "x = (t, l, i)" by (cases x) auto
  from assms(1) obtain a b info1 where
    "set_lane a l True info = Inr info1" and "set_lane b l True info1 = Inr info'"
    unfolding x override_step_def by (auto simp: Let_def split: sum.splits)
  then show ?thesis using assms(2) set_lane_True_all_kept by blast
qed

lemma override_step_length: "override_step x info = Inr info' \<Longrightarrow> length info' = length info"
  by (cases x) (auto simp: override_step_def Let_def split: sum.splits dest!: set_lane_length)

lemma create_info_lanes_walked: "walked 0 (create_info_lanes info)"
  by (simp add: walked_def create_info_lanes_def)

lemma set_lanes_all_kept:
  assumes "set_lanes cfg draws rnd (create_info_lanes info) = Inr info'"
  shows "all_kept info' \<and> length info' = length info"
proof (cases "num_lanes_changes cfg > 0 \<and> num_lanes cfg > 1")
  case False
  then have "info' = create_info_lanes info" using assms by (auto simp: set_lanes_def)
  then show ?thesis by (simp add: all_kept_def create_info_lanes_def one_lane_kept_def)
next
  case True
  let ?n = "length (create_info_lanes info)"
  from True assms obtain chs w where
    w: "for_each (walk_step (max_single_lane cfg) chs rnd) [0..<?n]
          \<lparr> w_rm_lane = 0, w_lane = 0, w_counter = 0, w_drawn = 0,
            w_info = create_info_lanes info \<rparr> = Inr w"
    and ov: "for_each override_step (override_range cfg) (w_info w) = Inr info'"
    by (auto simp: set_lanes_def Let_def split: sum.splits)
  let ?I = "\<lambda>k v. walked k (w_info v) \<and> length (w_info v) = ?n"
  have "?I ?n w"
    by (rule for_each_upt_invariant [OF w, where I = ?I])
       (use create_info_lanes_walked walk_step_walked in \<open>auto\<close>)
  then have k: "all_kept (w_info w)" and len: "length (w_info w) = length info"
    by (auto simp: walked_def all_kept_def create_info_lanes_def)
  have "all_kept info' \<and> length info' = length info"
    by (rule for_each_invariant [OF ov, where P = "\<lambda>v. all_kept v \<and> length v = length info"])
       (use k len override_step_all_kept override_step_length in \<open>auto\<close>)
  then show ?thesis .
qed

lemma for_each_total:
  assumes "P s"
    and "\<And>x t. x \<in> set xs \<Longrightarrow> P t \<Longrightarrow> \<exists>t'. f x t = Inr t' \<and> P t'"
  shows "\<exists>s'. for_each f xs s = Inr s' \<and> P s'"
  using assms
proof (induction xs arbitrary: s)
  case Nil
  then show ?case by simp
next
  case (Cons x xs)
  from Cons.prems(2) [of x s] Cons.prems(1) obtain t where t: "f x s = Inr t" "P t" by auto
  have "\<And>y u. y \<in> set xs \<Longrightarrow> P u \<Longrightarrow> \<exists>u'. f y u = Inr u' \<and> P u'"
    using Cons.prems(2) by (meson list.set_intros(2))
  from Cons.IH [OF t(2) this] show ?case using t(1) by simp
qed

lemma for_each_upt_total:
  assumes "I i s"
    and "\<And>j t. i \<le> j \<Longrightarrow> j < n \<Longrightarrow> I j t \<Longrightarrow> \<exists>t'. f j t = Inr t' \<and> I (Suc j) t'"
    and "i \<le> n"
  shows "\<exists>s'. for_each f [i..<n] s = Inr s' \<and> I n s'"
  using assms
proof (induction "n - i" arbitrary: i s)
  case 0
  then show ?case by simp
next
  case (Suc d)
  then have lt: "i < n" by simp
  then have unf: "[i..<n] = i # [Suc i..<n]" by (simp add: upt_conv_Cons)
  from Suc.prems(2) [of i s] Suc.prems(1) lt obtain t where t: "f i s = Inr t" "I (Suc i) t" by auto
  have d: "d = n - Suc i" using Suc.hyps(2) by simp
  have "\<exists>s'. for_each f [Suc i..<n] t = Inr s' \<and> I n s'"
    using Suc.hyps(1) [OF d t(2)] Suc.prems(2) lt by simp
  then show ?case unfolding unf using t(1) by simp
qed

lemma item_nat: "i < length xs \<Longrightarrow> item xs (int i) = Inr (xs ! i)"
  by (simp add: item_def)

lemma item_neg: "0 < i \<Longrightarrow> i \<le> length xs \<Longrightarrow> item xs (- int i) = Inr (xs ! (length xs - i))"
  by (simp add: item_def Let_def nat_diff_distrib' of_nat_diff)

lemma item_in_range:
  "- int (length xs) \<le> i \<Longrightarrow> i < int (length xs) \<Longrightarrow> \<exists>x \<in> set xs. item xs i = Inr x"
  by (auto simp: item_def Let_def)

lemma main_only_filter:
  assumes "main_only n info" and "i < n"
  shows "filter (\<lambda>u. track u = track (info ! i)) info = info"
    and "filter (\<lambda>u. track u < track (info ! i)) info = []"
  using assms by (auto simp: main_only_def filter_id_conv filter_empty_conv in_set_conv_nth)

lemma near_boundary_main_only:
  assumes "main_only n info" and "0 < n"
    and "\<forall>i \<in> set is. - int n \<le> r - int i \<and> r - int i < int n"
  shows "near_boundary info r is = Inr False"
  using assms(3)
proof (induction "is")
  case Nil
  then show ?case by simp
next
  case (Cons i "is")
  have len: "length info = n" using assms(1) by (simp add: main_only_def)
  have inr: "\<And>x. x \<in> set info \<Longrightarrow> \<not> tile_end x \<and> \<not> tile_start x"
    using assms(1) by (auto simp: main_only_def in_set_conv_nth)
  have m: "py_mod (r + int i) (int (length info)) = Inr ((r + int i) mod int n)"
    using assms(2) len by (simp add: py_mod_def)
  have "0 \<le> (r + int i) mod int n" "(r + int i) mod int n < int n"
    using assms(2) by simp_all
  then obtain ta where ta: "ta \<in> set info" "item info ((r + int i) mod int n) = Inr ta"
    using item_in_range [of info "(r + int i) mod int n"] len by fastforce
  obtain tb where tb: "tb \<in> set info" "item info (r - int i) = Inr tb"
    using item_in_range [of info "r - int i"] Cons.prems len by auto
  show ?case using m ta tb inr Cons by simp
qed

lemma changes_bad_single:
  assumes "main_only n info" and "c < n" and "50 \<le> n"
  shows "changes_bad_of info [c] = Inr []"
proof -
  have len: "length info = n" using assms(1) by (simp add: main_only_def)
  have it: "item info (int c) = Inr (info ! c)" using assms(2) len by (simp add: item_nat)
  have nb: "near_boundary info (int c) [0..<50 + 1] = Inr False"
    by (rule near_boundary_main_only [OF assms(1)]) (use assms in auto)
  show ?thesis
    using it nb main_only_filter [OF assms(1,2)]
    by (simp add: changes_bad_of_def changes_bad_for_def)
qed

lemma set_lane_main_only:
  assumes "main_only n info" and "i < n" and "l < 2"
  shows "\<exists>info'. set_lane i l v info = Inr info' \<and> main_only n info'
           \<and> (\<forall>j < n. lanes (info' ! j) = (if j = i then (lanes (info ! i))[l := v] else lanes (info ! j)))"
  using assms by (auto simp: set_lane_def main_only_def nth_list_update)

lemma walk_step_inv:
  assumes "walk_inv n c (if rnd 0 then 1 else 0) k w" and "k < n" and "n \<le> c + 50"
  shows "\<exists>w'. walk_step 50 [c] rnd k w = Inr w' \<and> walk_inv n c (if rnd 0 then 1 else 0) (Suc k) w'"
proof -
  let ?l = "if rnd 0 then 1 else 0 :: nat"
  have mo: "main_only n (w_info w)" using assms(1) by (simp add: walk_inv_def)
  show ?thesis
  proof (cases "k < c")
    case True
    then have rm: "w_rm_lane w = 0" using assms(1) by (simp add: walk_inv_def)
    have it: "item (w_info w) (int k) = Inr (w_info w ! k)"
      using mo assms(2) by (simp add: item_nat main_only_def)
    have fl: "\<not> tile_end (w_info w ! k) \<and> \<not> tile_start (w_info w ! k)"
      using mo assms(2) by (simp add: main_only_def)
    show ?thesis
      using True rm it fl assms(1)
      by (auto simp: walk_step_def Let_def walk_inv_def)
  next
    case False
    define l1 where "l1 = (if k = c then ?l else w_lane w)"
    have l1: "l1 = ?l" using False assms(1) by (auto simp: l1_def walk_inv_def)
    have rm1: "(w_rm_lane w + (if k \<in> set [c] then 1 else 0)) mod 2 = 1"
      using False assms(1) by (auto simp: walk_inv_def)
    have dr: "k = c \<Longrightarrow> w_drawn w = 0" using assms(1) by (simp add: walk_inv_def)
    obtain info' where sl: "set_lane k ?l False (w_info w) = Inr info'"
      and mo': "main_only n info'"
      and ln: "\<forall>j < n. lanes (info' ! j) =
                 (if j = k then (lanes (w_info w ! k))[?l := False] else lanes (w_info w ! j))"
    proof -
      have l2: "?l < 2" by simp
      show ?thesis using set_lane_main_only [OF mo assms(2) l2, of False] that by blast
    qed
    have it: "item info' (int k) = Inr (info' ! k)"
      using mo' assms(2) by (simp add: item_nat main_only_def)
    have fl: "\<not> tile_end (info' ! k) \<and> \<not> tile_start (info' ! k)"
      using mo' assms(2) by (simp add: main_only_def)
    have old: "\<forall>i < n. lanes (w_info w ! i) =
                 (if c \<le> i \<and> i < k then [True, True][?l := False] else [True, True])"
      using assms(1) by (simp add: walk_inv_def)
    have step: "walk_step 50 [c] rnd k w =
        Inr \<lparr> w_rm_lane = (if w_counter w + 1 > 50 then 0 else 1), w_lane = ?l,
              w_counter = w_counter w + 1,
              w_drawn = (if k = c then w_drawn w + 1 else w_drawn w), w_info = info' \<rparr>"
      using rm1 sl it fl dr l1 False assms(1)
      by (auto simp: walk_step_def Let_def walk_inv_def)
    have c50: "\<not> w_counter w + 1 > 50"
      using False assms(1,2,3) by (auto simp: walk_inv_def split: if_splits)
    have cw: "w_counter w + 1 = Suc k - c"
      using False assms(1) by (auto simp: walk_inv_def split: if_splits)
    show ?thesis
      unfolding step walk_inv_def
      using mo' ln old c50 cw False by (auto simp: less_Suc_eq)
  qed
qed

lemma override_range_member:
  "x \<in> set (override_range cfg) \<Longrightarrow>
   \<exists>t l i. x = (t, l, i) \<and> t < num_tracks cfg \<and> l < num_lanes cfg \<and> i < 10"
  by (auto simp: override_range_def)

lemma main_only_ids:
  "main_only n info \<Longrightarrow> filter (\<lambda>j. track (info ! j) = 0) [0..<length info] = [0..<n]"
  by (auto simp: main_only_def filter_id_conv)

lemma override_step_keeps:
  assumes "main_only n info" and "20 \<le> n" and "l < 2" and "i < 10"
  shows "\<exists>info'. override_step (0, l, i) info = Inr info' \<and> main_only n info'
           \<and> lanes (info' ! (n - 10)) = lanes (info ! (n - 10))"
proof -
  have ids: "filter (\<lambda>j. track (info ! j) = 0) [0..<length info] = [0..<n]"
    by (rule main_only_ids [OF assms(1)])
  have a: "item [0..<n] (int i) = Inr i" using assms(2,4) by (simp add: item_nat)
  obtain b where b: "item [0..<n] (- int i) = Inr b" and bn: "b < n" and b10: "b \<noteq> n - 10"
  proof (cases "i = 0")
    case True
    then have "item [0..<n] (- int i) = Inr 0" using assms(2) item_nat [of 0 "[0..<n]"] by simp
    then show ?thesis using that [of 0] assms(2) by simp
  next
    case False
    then have "item [0..<n] (- int i) = Inr (n - i)"
      using assms(2,4) item_neg [of i "[0..<n]"] by simp
    then show ?thesis using that [of "n - i"] assms(2,4) False by simp
  qed
  obtain info1 where s1: "set_lane i l True info = Inr info1" and m1: "main_only n info1"
    and l1: "\<forall>j < n. lanes (info1 ! j) = (if j = i then (lanes (info ! i))[l := True] else lanes (info ! j))"
    using set_lane_main_only [OF assms(1) _ assms(3), of i True] assms(2,4) by auto
  obtain info2 where s2: "set_lane b l True info1 = Inr info2" and m2: "main_only n info2"
    and l2: "\<forall>j < n. lanes (info2 ! j) = (if j = b then (lanes (info1 ! b))[l := True] else lanes (info1 ! j))"
    using set_lane_main_only [OF m1 bn assms(3), of True] by auto
  have ne: "n - 10 \<noteq> i" and lt: "n - 10 < n" using assms(2,4) by simp_all
  have "lanes (info2 ! (n - 10)) = lanes (info ! (n - 10))"
    using l1 l2 b10 ne lt by simp
  then show ?thesis
    using ids a b s1 s2 m2 by (simp add: override_step_def Let_def)
qed

lemma set_lanes_single_change:
  assumes mo: "main_only n info" and tt: "\<forall>i < n. lanes (info ! i) = [True, True]"
    and n50: "50 \<le> n" and c1: "c + 10 \<le> n" and c2: "n \<le> c + 50"
    and cfg: "num_tracks cfg = 1" "num_lanes cfg = 2" "num_lanes_changes cfg = 1"
      "max_single_lane cfg = 50"
  shows "\<exists>info'. set_lanes cfg [c] rnd info = Inr info'
           \<and> lanes (info' ! (n - 10)) = [True, True][(if rnd 0 then 1 else 0) := False]"
proof -
  let ?l = "if rnd 0 then 1 else 0 :: nat"
  have len: "length info = n" using mo by (simp add: main_only_def)
  have bad: "changes_bad_of info [c] = Inr []"
    by (rule changes_bad_single [OF mo]) (use c1 n50 in auto)
  let ?w0 = "\<lparr> w_rm_lane = 0, w_lane = 0, w_counter = 0, w_drawn = 0, w_info = info \<rparr>"
  have "\<exists>w. for_each (walk_step 50 [c] rnd) [0..<n] ?w0 = Inr w \<and> walk_inv n c ?l n w"
    by (rule for_each_upt_total [where I = "walk_inv n c ?l"])
       (use mo tt c2 walk_step_inv in \<open>auto simp: walk_inv_def\<close>)
  then obtain w where w: "for_each (walk_step 50 [c] rnd) [0..<n] ?w0 = Inr w"
    and wi: "walk_inv n c ?l n w" by blast
  let ?P = "\<lambda>v. main_only n v \<and> lanes (v ! (n - 10)) = [True, True][?l := False]"
  have P0: "?P (w_info w)" using wi c1 n50 by (auto simp: walk_inv_def)
  have "\<exists>info'. for_each override_step (override_range cfg) (w_info w) = Inr info' \<and> ?P info'"
  proof (rule for_each_total [where P = ?P, OF P0])
    fix x v assume x: "x \<in> set (override_range cfg)" and v: "?P v"
    from override_range_member [OF x] cfg obtain l i where
      xe: "x = (0, l, i)" and l: "l < 2" and i: "i < 10" by auto
    have "20 \<le> n" using n50 by simp
    from override_step_keeps [OF _ this l i, of v] v
    show "\<exists>t'. override_step x v = Inr t' \<and> ?P t'" unfolding xe by auto
  qed
  then obtain info' where ov: "for_each override_step (override_range cfg) (w_info w) = Inr info'"
    and P: "?P info'" by blast
  have "set_lanes cfg [c] rnd info = Inr info'"
    using bad w ov cfg len by (simp add: set_lanes_def)
  then show ?thesis using P by blast
qed

text \<open>
  C10. Unless the lane count is greater than 1 and the number of lane changes is greater
  than 0, \<^verbatim>\<open>_set_lanes\<close> does nothing: it returns, and every tile keeps the mask
  \<^verbatim>\<open>[True, True]\<close> that \<^verbatim>\<open>_create_info\<close> gave it.
\<close>

theorem set_lanes_idle_keeps_both_lanes:
  assumes "\<not> (num_lanes cfg > 1 \<and> num_lanes_changes cfg > 0)"
  shows "set_lanes cfg draws global_rnd (create_info_lanes info) = Inr (create_info_lanes info)
         \<and> (\<forall>t \<in> set (create_info_lanes info). lanes t = [True, True])"
  using assms by (auto simp: set_lanes_def create_info_lanes_def)

theorem set_lanes_idle_keeps_both_lanes_witness:
  "\<not> (num_lanes cfg_default > 1 \<and> num_lanes_changes cfg_default > 0)
   \<and> set_lanes cfg_default [] (\<lambda>k. False) (create_info_lanes [plain_tile, plain_tile])
       = Inr [plain_tile, plain_tile]
   \<and> lanes plain_tile = [True, True]"
proof -
  have h: "\<not> (num_lanes cfg_default > 1 \<and> num_lanes_changes cfg_default > 0)"
    by (simp add: cfg_default_def set_config_def)
  show ?thesis
    using h set_lanes_idle_keeps_both_lanes [OF h, of "[]" "\<lambda>k. False" "[plain_tile, plain_tile]"]
    by (simp add: create_info_lanes_def plain_tile_def)
qed

text \<open>
  C7. When \<^verbatim>\<open>_set_lanes\<close> returns on the rows of \<^verbatim>\<open>_create_info\<close>, no tile has the mask
  \<^verbatim>\<open>[False, False]\<close>: every mask has two entries and at most one of them is disabled.
\<close>

theorem lane_mask_never_all_false:
  assumes "set_lanes cfg draws global_rnd (create_info_lanes info) = Inr info'"
  shows "length info' = length info
         \<and> (\<forall>i < length info'. lanes (info' ! i) \<noteq> [False, False]
               \<and> one_lane_kept (lanes (info' ! i)))"
  using set_lanes_all_kept [OF assms] by (auto simp: all_kept_def one_lane_kept_def)

theorem lane_mask_never_all_false_witness:
  "\<exists>info'. set_lanes cfg_lanes [270] (\<lambda>k. False) track300 = Inr info'
     \<and> length info' = 300 \<and> lanes (info' ! 290) = [False, True]
     \<and> lanes (info' ! 290) \<noteq> [False, False]"
proof -
  have mo: "main_only 300 track300"
    by (simp add: main_only_def track300_def create_info_lanes_def plain_tile_def)
  have tt: "\<forall>i < 300. lanes (track300 ! i) = [True, True]"
    by (simp add: track300_def create_info_lanes_def)
  obtain info' where r: "set_lanes cfg_lanes [270] (\<lambda>k. False) track300 = Inr info'"
    and d: "lanes (info' ! 290) = [False, True]"
    using set_lanes_single_change [OF mo tt, of 270 cfg_lanes "\<lambda>k. False"]
    by (auto simp: cfg_lanes_def set_config_def)
  have "set_lanes cfg_lanes [270] (\<lambda>k. False) (create_info_lanes (replicate 300 plain_tile)) = Inr info'"
    using r by (simp add: track300_def)
  from lane_mask_never_all_false [OF this] have "length info' = 300"
    and "lanes (info' ! 290) \<noteq> [False, False]" by simp_all
  then show ?thesis using r d by blast
qed

text \<open>
  C6, evaluated where the code departs from it. A single track of 300 tiles, two
  lanes, one change point drawn at tile 270, lane 0 drawn for removal: the run of
  removed lane reaches from tile 270 to the end of the track, the override restores the
  first ten tiles and the last nine, and tile 290, the tenth from the end, keeps lane 0
  disabled.
\<close>

theorem tenth_tile_from_end_not_restored:
  "\<exists>info'. set_lanes cfg_lanes [270] (\<lambda>k. False) track300 = Inr info'
     \<and> lanes (info' ! (300 - 10)) = [False, True]"
proof -
  have mo: "main_only 300 track300"
    by (simp add: main_only_def track300_def create_info_lanes_def plain_tile_def)
  have tt: "\<forall>i < 300. lanes (track300 ! i) = [True, True]"
    by (simp add: track300_def create_info_lanes_def)
  show ?thesis
    using set_lanes_single_change [OF mo tt, of 270 cfg_lanes "\<lambda>k. False"]
    by (auto simp: cfg_lanes_def set_config_def)
qed

text \<open>
  C5, evaluated where the code departs from it. The change points come from the seeded
  generator \<^verbatim>\<open>self.np_random\<close>, the lane to drop from the module-level \<^verbatim>\<open>np.random\<close>. With
  the same seeded draw (tile 270) and the two possible values of the first unseeded
  draw, \<^verbatim>\<open>_set_lanes\<close> leaves different lane masks.
\<close>

theorem set_lanes_depends_on_unseeded_draw:
  "set_lanes cfg_lanes [270] (\<lambda>k. False) track300 \<noteq> set_lanes cfg_lanes [270] (\<lambda>k. True) track300"
proof -
  have mo: "main_only 300 track300"
    by (simp add: main_only_def track300_def create_info_lanes_def plain_tile_def)
  have tt: "\<forall>i < 300. lanes (track300 ! i) = [True, True]"
    by (simp add: track300_def create_info_lanes_def)
  obtain a where a: "set_lanes cfg_lanes [270] (\<lambda>k. False) track300 = Inr a"
    and la: "lanes (a ! 290) = [False, True]"
    using set_lanes_single_change [OF mo tt, of 270 cfg_lanes "\<lambda>k. False"]
    by (auto simp: cfg_lanes_def set_config_def)
  obtain b where b: "set_lanes cfg_lanes [270] (\<lambda>k. True) track300 = Inr b"
    and lb: "lanes (b ! 290) = [True, False]"
    using set_lanes_single_change [OF mo tt, of 270 cfg_lanes "\<lambda>k. True"]
    by (auto simp: cfg_lanes_def set_config_def)
  have "a \<noteq> b" using la lb by auto
  then show ?thesis using a b by simp
qed

section \<open>Lookahead graph: proofs\<close>

subsection \<open>Reading rows\<close>

lemma item_map_upt: "0 \<le> i \<Longrightarrow> i < int n \<Longrightarrow> item (map f [0..<n]) i = Inr (f (nat i))"
  by (simp add: item_def)

lemma item_replicate: "0 \<le> i \<Longrightarrow> i < int n \<Longrightarrow> item (replicate n x) i = Inr x"
  by (simp add: item_def)

lemma item_Cons_0: "item (x # xs) 0 = Inr x"
  by (simp add: item_def)

lemma item_Cons_1: "item (x # y # xs) 1 = Inr y"
  by (simp add: item_def)

lemma filter_upt_two:
  assumes "a < b" and "b < n"
  shows "filter (\<lambda>j. j = a \<or> j = b) [0..<n] = [a, b]"
proof (rule sorted_distinct_set_unique)
  show "sorted (filter (\<lambda>j. j = a \<or> j = b) [0..<n])" by (simp add: sorted_wrt_filter)
  show "distinct (filter (\<lambda>j. j = a \<or> j = b) [0..<n])" by simp
  show "sorted [a, b]" using assms by simp
  show "distinct [a, b]" using assms by simp
  show "set (filter (\<lambda>j. j = a \<or> j = b) [0..<n]) = set [a, b]" using assms by auto
qed

lemma next_step_empty: "next_step e [] = Inr []"
  by (simp add: next_step_def entries_def)

subsection \<open>The refill loop\<close>

declare refill.simps [simp del]

lemma refill_done: "\<not> length nxt < SHOW_NEXT_N_TILES \<Longrightarrow> refill e cur nxt = Inr nxt"
  by (simp add: refill.simps)

lemma refill_first:
  "next_step e cur = Inr nn \<Longrightarrow> refill e cur [] = refill e cur [nn]"
  by (subst refill.simps) (simp add: SHOW_NEXT_N_TILES_def)

lemma refill_more:
  "nxt \<noteq> [] \<Longrightarrow> length nxt < SHOW_NEXT_N_TILES \<Longrightarrow> next_step e (last nxt) = Inr nn \<Longrightarrow>
   refill e cur nxt = refill e cur (nxt @ [nn])"
  by (subst refill.simps) simp

lemma refill_after_empty:
  "nxt \<noteq> [] \<Longrightarrow> last nxt = [] \<Longrightarrow>
   refill e cur nxt = Inr (nxt @ replicate (SHOW_NEXT_N_TILES - length nxt) [])"
proof (induction e cur nxt rule: refill.induct)
  case (1 e cur nxt)
  show ?case
  proof (cases "length nxt < SHOW_NEXT_N_TILES")
    case False
    then show ?thesis by (simp add: refill_done)
  next
    case True
    have ns: "next_step e (last nxt) = Inr []" using "1.prems" by (simp add: next_step_empty)
    have "refill e cur (nxt @ [[]]) =
            Inr ((nxt @ [[]]) @ replicate (SHOW_NEXT_N_TILES - length (nxt @ [[]])) [])"
      using "1.IH" [of "[]"] True ns "1.prems" by simp
    moreover have "SHOW_NEXT_N_TILES - length nxt = Suc (SHOW_NEXT_N_TILES - length (nxt @ [[]]))"
      using True by simp
    ultimately show ?thesis
      using refill_more [OF "1.prems"(1) True ns, of cur] by (simp add: replicate_app_Cons_same)
  qed
qed

lemma refill_length:
  "refill e cur nxt = Inr r \<Longrightarrow> length nxt \<le> SHOW_NEXT_N_TILES \<Longrightarrow> length r = SHOW_NEXT_N_TILES"
proof (induction e cur nxt rule: refill.induct)
  case (1 e cur nxt)
  show ?case
  proof (cases "length nxt < SHOW_NEXT_N_TILES")
    case False
    then show ?thesis using "1.prems" by (simp add: refill_done)
  next
    case True
    then obtain nn where nn: "next_step e (if length nxt = 0 then cur else last nxt) = Inr nn"
      and r: "refill e cur (nxt @ [nn]) = Inr r"
      using "1.prems"(1) by (subst (asm) refill.simps) (auto split: sum.splits)
    show ?thesis using "1.IH" [OF True nn r] True by simp
  qed
qed

lemma refill_extends:
  "refill e cur nxt = Inr r \<Longrightarrow> \<exists>new. r = nxt @ new"
proof (induction e cur nxt rule: refill.induct)
  case (1 e cur nxt)
  show ?case
  proof (cases "length nxt < SHOW_NEXT_N_TILES")
    case False
    then show ?thesis using "1.prems" by (simp add: refill_done)
  next
    case True
    then obtain nn where nn: "next_step e (if length nxt = 0 then cur else last nxt) = Inr nn"
      and r: "refill e cur (nxt @ [nn]) = Inr r"
      using "1.prems"(1) by (subst (asm) refill.simps) (auto split: sum.splits)
    from "1.IH" [OF True nn r] show ?thesis by auto
  qed
qed

text \<open>
  Once the frontier holds a step, the loop reads only its last step: the occupancy has
  no part in what it appends.
\<close>

lemma refill_ignores_occupancy:
  "nxt \<noteq> [] \<Longrightarrow> refill e cur nxt = refill e cur2 nxt"
proof (induction e cur nxt rule: refill.induct)
  case (1 e cur nxt)
  show ?case
  proof (cases "length nxt < SHOW_NEXT_N_TILES")
    case False
    then show ?thesis by (simp add: refill_done)
  next
    case True
    show ?thesis
    proof (cases "next_step e (last nxt)")
      case (Inl x)
      then show ?thesis using True "1.prems"
        by (subst refill.simps, subst (2) refill.simps) simp
    next
      case (Inr nn)
      have "refill e cur (nxt @ [nn]) = refill e cur2 (nxt @ [nn])"
        using "1.IH" [of nn] True Inr "1.prems" by simp
      then show ?thesis
        using refill_more [OF "1.prems" True Inr, of cur] refill_more [OF "1.prems" True Inr, of cur2]
        by simp
    qed
  qed
qed

subsection \<open>Reconciliation and the length of the frontier\<close>

lemma reconcile_length: "length (reconcile ident l d nxt) \<le> length nxt"
  by (cases nxt) (auto simp: reconcile_def split: option.splits)

lemma reconcile_matched:
  assumes "map_of st ident = Some ls" and "map_of ls l = Some d"
  shows "reconcile ident l d (st # rest) =
           (if length ls > 1 then AList.map_entry ident (AList.delete l) st
            else AList.delete ident st) # rest"
  using assms by (simp add: reconcile_def)

lemma reconcile_unmatched:
  assumes "\<not> (\<exists>st rest ls. nxt = st # rest \<and> map_of st ident = Some ls \<and> map_of ls l = Some d)"
  shows "reconcile ident l d nxt = []"
  using assms by (cases nxt) (auto simp: reconcile_def split: option.splits)

lemma add_current_tile_frontier:
  assumes "add_current_tile e reversed ident l s = Inr s'"
  shows "refill e (current_nodes s')
           (filter (\<lambda>step. length step > 0)
              (reconcile ident l (if reversed then - 1 else 1) (next_nodes s)))
         = Inr (next_nodes s')"
  using assms by (auto simp: add_current_tile_def Let_def split: sum.splits)

lemma add_current_tile_length:
  assumes "add_current_tile e reversed ident l s = Inr s'"
    and "length (next_nodes s) \<le> SHOW_NEXT_N_TILES"
  shows "length (next_nodes s') = SHOW_NEXT_N_TILES"
proof -
  let ?f = "filter (\<lambda>step. length step > 0)
              (reconcile ident l (if reversed then - 1 else 1) (next_nodes s))"
  have "length ?f \<le> length (reconcile ident l (if reversed then - 1 else 1) (next_nodes s))"
    by (rule length_filter_le)
  then have "length ?f \<le> SHOW_NEXT_N_TILES"
    using reconcile_length [of ident l "if reversed then - 1 else 1" "next_nodes s"] assms(2)
    by linarith
  then show ?thesis using refill_length [OF add_current_tile_frontier [OF assms(1)]] by simp
qed

lemma remove_current_tile_length:
  "remove_current_tile ident l s = Inr s' \<Longrightarrow> length (next_nodes s') \<le> length (next_nodes s)"
  by (auto simp: remove_current_tile_def split: option.splits sum.splits if_splits)

lemma credit_visit_frontier: "credit_visit e b s = Inr s' \<Longrightarrow> next_nodes s' = next_nodes s"
  by (auto simp: credit_visit_def split: if_splits)

lemma contact_length:
  assumes "contact e c s = Inr s'" and "length (next_nodes s) \<le> SHOW_NEXT_N_TILES"
  shows "length (next_nodes s') \<le> SHOW_NEXT_N_TILES"
proof (cases "tile_body c")
  case None
  then show ?thesis using assms by (simp add: contact_def)
next
  case (Some b)
  show ?thesis
  proof (cases "b < length (road s) \<and> obj_wheel c \<noteq> None")
    case False
    then show ?thesis using assms Some by (auto simp: contact_def split: option.splits)
  next
    case True
    then obtain w where w: "obj_wheel c = Some w" by auto
    let ?s1 = "if body_typename (road s ! b) = OBSTACLE_NAME
               then s\<lparr>reward := reward s + OBSTACLE_VALUE\<rparr> else s"
    have l1: "length (next_nodes ?s1) \<le> SHOW_NEXT_N_TILES" using assms(2) by simp
    show ?thesis
    proof (cases "is_begin c")
      case True
      from assms(1) Some \<open>b < length (road s) \<and> obj_wheel c \<noteq> None\<close> w True
      obtain s2 where s2: "(if body_typename (road s ! b) = TILE_NAME then
                            (if \<not> module_env_bound e then Inl NameError
                             else
                               (case (body_id (road s ! b), body_lane (road s ! b)) of
                                  (Some ident, Some l) \<Rightarrow>
                                    add_current_tile e (heading_reversed c) ident l ?s1
                                | _ \<Rightarrow> Inl AttributeError))
                          else Inr ?s1) = Inr s2"
        and cv: "credit_visit e b
                   (s2\<lparr>wheel_tiles := (wheel_tiles s2)(w := insert b (wheel_tiles s2 w))\<rparr>) = Inr s'"
        by (auto simp: contact_def Let_def split: sum.splits)
      have "length (next_nodes s2) \<le> SHOW_NEXT_N_TILES"
        using s2 l1 add_current_tile_length [of e "heading_reversed c" _ _ ?s1 s2]
        by (auto split: if_splits option.splits)
      then show ?thesis using credit_visit_frontier [OF cv] by simp
    next
      case False
      from assms(1) Some \<open>b < length (road s) \<and> obj_wheel c \<noteq> None\<close> w False
      obtain ident l where
        "remove_current_tile ident l
           (?s1\<lparr>wheel_tiles := (wheel_tiles ?s1)(w := wheel_tiles ?s1 w - {b})\<rparr>) = Inr s'"
        by (auto simp: contact_def Let_def split: sum.splits if_splits option.splits)
      from remove_current_tile_length [OF this] show ?thesis using assms(2) by (simp split: if_splits)
    qed
  qed
qed

lemma contacts_length:
  assumes "contacts e cs s = Inr s'" and "length (next_nodes s) \<le> SHOW_NEXT_N_TILES"
  shows "length (next_nodes s') \<le> SHOW_NEXT_N_TILES"
  using assms(1) unfolding contacts_def
  by (rule for_each_invariant [where P = "\<lambda>v. length (next_nodes v) \<le> SHOW_NEXT_N_TILES"])
     (use assms(2) contact_length in auto)

subsection \<open>Successors at a junction\<close>

lemma junction_group:
  "filter (\<lambda>j. intersection_id (self_info env_junction ! j) = 150) [0..<length (self_info env_junction)]
     = [150, 450]"
proof -
  have "filter (\<lambda>j. intersection_id (self_info env_junction ! j) = 150) [0..<length (self_info env_junction)]
      = filter (\<lambda>j. j = 150 \<or> j = 450) [0..<580]"
    by (rule filter_cong) (auto simp: env_junction_def junction_row_def)
  then show ?thesis by (simp add: filter_upt_two)
qed

text \<open>
  C4, evaluated where the code departs from it. The caller is tile 449 of the second
  track (relative index 149), lane 0, direction \<open>+1\<close>; its naive successor is tile 450,
  which belongs to the intersection group of the main-track tile 150. Tile 150 is a
  main-track tile of the group and not the naive successor, yet it receives the caller's
  lane and direction instead of direction 0 on both lanes: the test
  \<^verbatim>\<open>tmp_id == next_id\<close> compares the absolute id 150 with the relative index 150.
\<close>

theorem secondary_caller_keeps_lane_on_main_tile: "get_next_node env_junction 449 0 1 = Inr [(150, [(0, 1)]), (450, [(1, 1), (0, 1)])]"
proof -
  have i: "self_info env_junction = map junction_row [0..<580]"
    and t: "self_tracks env_junction = [300, 280]"
    by (simp_all add: env_junction_def)
  have r: "id_relative_of env_junction 449 = Inr 149"
    by (simp add: id_relative_of_def i t item_map_upt junction_row_def item_Cons_0)
  have g: "filter (\<lambda>j. intersection_id (map junction_row [0..<580] ! j) = 150) [0..<580] = [150, 450]"
    using junction_group by (simp add: i)
  show ?thesis
    by (simp add: get_next_node_def r i t item_map_upt item_Cons_1 py_mod_def g group_step_def
        junction_row_def Let_def)
qed

text \<open>For comparison, the caller on the main track whose naive successor is tile 150.\<close>

lemma main_caller_keeps_lane_on_successor: "get_next_node env_junction 149 0 1 = Inr [(150, [(0, 1)]), (450, [(1, 1), (0, 1)])]"
proof -
  have i: "self_info env_junction = map junction_row [0..<580]"
    and t: "self_tracks env_junction = [300, 280]"
    by (simp_all add: env_junction_def)
  have r: "id_relative_of env_junction 149 = Inr 149"
    by (simp add: id_relative_of_def i t item_map_upt junction_row_def item_Cons_0)
  have g: "filter (\<lambda>j. intersection_id (map junction_row [0..<580] ! j) = 150) [0..<580] = [150, 450]"
    using junction_group by (simp add: i)
  show ?thesis
    by (simp add: get_next_node_def r i t item_map_upt item_Cons_0 py_mod_def g group_step_def
        junction_row_def Let_def)
qed

text \<open>
  For a caller on the main track the relative and the absolute index are the same
  number, and the successors are the ones C4 lists: with the rows of the main track
  first in \<^verbatim>\<open>info\<close>, every tile of the group is a key of the result, the naive successor
  keeps the caller's lane and direction, the other main-track tiles of the group get both
  lanes with direction 0, and the start and end tiles get both lanes with direction
  \<open>-1\<close>.
\<close>

lemma update_fresh: "k \<notin> fst ` set al \<Longrightarrow> AList.update k v al = al @ [(k, v)]"
  by (induction al) auto

lemma map_entry_last: "k \<notin> fst ` set al \<Longrightarrow> AList.map_entry k f (al @ [(k, v)]) = al @ [(k, f v)]"
  by (induction al) auto

lemma group_step_fresh:
  assumes "t \<notin> fst ` set nn"
  shows "group_step e la next_id t (nn, d) =
           (nn @ [(t, next_value e la next_id t d)], next_direction e t d)"
  using assms
  by (simp add: group_step_def Let_def update_fresh map_entry_last next_value_def
      next_direction_def)

lemma fold_group_main:
  assumes "\<forall>t \<in> set ts. track (self_info e ! t) = 0" and "distinct ts"
    and "set ts \<inter> fst ` set nn = {}"
  shows "fold (group_step e la next_id) ts (nn, d) =
           (nn @ map (\<lambda>t. (t, next_value e la next_id t d)) ts, d)"
  using assms
proof (induction ts arbitrary: nn)
  case Nil
  then show ?case by simp
next
  case (Cons t ts)
  have f: "t \<notin> fst ` set nn" using Cons.prems(3) by auto
  have d: "next_direction e t d = d" using Cons.prems(1) by (simp add: next_direction_def)
  have "set ts \<inter> fst ` set (nn @ [(t, next_value e la next_id t d)]) = {}"
    using Cons.prems(2,3) by auto
  then show ?case
    using Cons.IH [of "nn @ [(t, next_value e la next_id t d)]"] Cons.prems(1,2)
    by (simp add: group_step_fresh [OF f] d)
qed

lemma fold_group_any:
  assumes "distinct ts" and "set ts \<inter> fst ` set nn = {}"
  shows "\<exists>vs. fst (fold (group_step e la next_id) ts (nn, d)) = nn @ vs \<and> map fst vs = ts
           \<and> (\<forall>t \<in> set ts. tile_end (self_info e ! t) \<or> tile_start (self_info e ! t) \<longrightarrow>
                  track (self_info e ! t) > 0 \<longrightarrow> map_of vs t = Some [(1, - 1), (0, - 1)])"
  using assms
proof (induction ts arbitrary: nn d)
  case Nil
  then show ?case by simp
next
  case (Cons t ts)
  let ?v = "next_value e la next_id t d"
  have f: "t \<notin> fst ` set nn" using Cons.prems(2) by auto
  have "set ts \<inter> fst ` set (nn @ [(t, ?v)]) = {}" using Cons.prems by auto
  from Cons.IH [OF _ this, of "next_direction e t d"] Cons.prems(1)
  obtain vs where vs: "fst (fold (group_step e la next_id) ts (nn @ [(t, ?v)], next_direction e t d))
                        = (nn @ [(t, ?v)]) @ vs"
    and k: "map fst vs = ts"
    and m: "\<forall>u \<in> set ts. tile_end (self_info e ! u) \<or> tile_start (self_info e ! u) \<longrightarrow>
              track (self_info e ! u) > 0 \<longrightarrow> map_of vs u = Some [(1, - 1), (0, - 1)]"
    by auto
  have nt: "t \<notin> set ts" using Cons.prems(1) by simp
  show ?case
  proof (intro exI [of _ "(t, ?v) # vs"] conjI ballI impI)
    show "fst (fold (group_step e la next_id) (t # ts) (nn, d)) = nn @ (t, ?v) # vs"
      using vs by (simp add: group_step_fresh [OF f])
    show "map fst ((t, ?v) # vs) = t # ts" using k by simp
  next
    fix u assume u: "u \<in> set (t # ts)"
      and fl: "tile_end (self_info e ! u) \<or> tile_start (self_info e ! u)"
      and tr: "0 < track (self_info e ! u)"
    show "map_of ((t, ?v) # vs) u = Some [(1, - 1), (0, - 1)]"
    proof (cases "u = t")
      case True
      then show ?thesis using fl tr by (simp add: next_value_def)
    next
      case False
      then have "u \<in> set ts" using u by simp
      then have "map_of vs u = Some [(1, - 1), (0, - 1)]" using m fl tr by blast
      then show ?thesis using False by simp
    qed
  qed
qed

lemma map_of_append_fresh:
  "k \<notin> fst ` set xs \<Longrightarrow> map_of (xs @ ys) k = map_of ys k"
  by (induction xs) auto

lemma map_of_map_key: "k \<in> set ks \<Longrightarrow> map_of (map (\<lambda>t. (t, f t)) ks) k = Some (f k)"
  by (induction ks) auto

lemma main_caller_junction_successors:
  assumes i: "ident < length (self_info e)" and t0: "track (self_info e ! ident) = 0"
    and go: "\<not> ((tile_end (self_info e ! ident) \<and> direction = 1)
               \<or> (tile_start (self_info e ! ident) \<and> direction = - 1))"
    and n: "self_tracks e = n # others" "0 < n" "n \<le> length (self_info e)"
    and layout: "\<forall>j < length (self_info e). track (self_info e ! j) = 0 \<longleftrightarrow> j < n"
    and g: "intersection_id (self_info e ! nat ((int ident + direction) mod int n)) = g" "g \<noteq> - 1"
  shows "\<exists>r. get_next_node e ident la direction = Inr r \<and>
           (\<forall>t < length (self_info e). intersection_id (self_info e ! t) = g \<longrightarrow>
              (if t < n then
                 map_of r t = Some (if int t = (int ident + direction) mod int n
                                    then [(la, direction)] else [(1, 0), (0, 0)])
               else tile_end (self_info e ! t) \<or> tile_start (self_info e ! t) \<longrightarrow>
                      map_of r t = Some [(1, - 1), (0, - 1)])
              \<and> map_of r t \<noteq> None)"
proof -
  let ?info = "self_info e"
  let ?N = "length ?info"
  let ?nx = "(int ident + direction) mod int n"
  let ?P = "\<lambda>j. intersection_id (?info ! j) = g"
  let ?ms = "filter ?P [0..<n]"
  let ?ss = "filter ?P [n..<?N]"
  have nx: "0 \<le> ?nx" "?nx < int n" using n(2) by simp_all
  then have nxN: "?nx < int ?N" using n(3) by linarith
  have it: "item ?info (int ident) = Inr (?info ! ident)" using i by (simp add: item_nat)
  have rel: "id_relative_of e ident = Inr (int ident)"
    by (simp add: id_relative_of_def it t0)
  have tr: "item (self_tracks e) (int (track (?info ! ident))) = Inr n"
    by (simp add: t0 n(1) item_def)
  have md: "py_mod (int ident + direction) (int n) = Inr ?nx" using n(2) by (simp add: py_mod_def)
  have sc: "item ?info ?nx = Inr (?info ! nat ?nx)"
    using nx(1) nxN by (simp add: item_def)
  have split: "filter ?P [0..<?N] = ?ms @ ?ss"
  proof -
    have "[0..<?N] = [0..<n] @ [n..<?N]"
      using n(3) upt_add_eq_append [of 0 n "?N - n"] by simp
    then show ?thesis by (metis filter_append)
  qed
  have main: "\<forall>t \<in> set ?ms. track (?info ! t) = 0" using layout n(3) by auto
  have "fold (group_step e la ?nx) ?ms ([], direction) =
          ([] @ map (\<lambda>t. (t, next_value e la ?nx t direction)) ?ms, direction)"
    by (rule fold_group_main [OF main]) simp_all
  then have fm: "fold (group_step e la ?nx) ?ms ([], direction) =
          (map (\<lambda>t. (t, next_value e la ?nx t direction)) ?ms, direction)" by simp
  let ?mv = "map (\<lambda>t. (t, next_value e la ?nx t direction)) ?ms"
  have keys: "fst ` set ?mv = set ?ms" by force
  have disj: "set ?ss \<inter> fst ` set ?mv = {}" unfolding keys by auto
  from fold_group_any [OF _ disj, of e la ?nx direction]
  obtain vs where vs: "fst (fold (group_step e la ?nx) ?ss (?mv, direction)) = ?mv @ vs"
    and k: "map fst vs = ?ss"
    and m: "\<forall>t \<in> set ?ss. tile_end (?info ! t) \<or> tile_start (?info ! t) \<longrightarrow>
              track (?info ! t) > 0 \<longrightarrow> map_of vs t = Some [(1, - 1), (0, - 1)]"
    by auto
  have res: "get_next_node e ident la direction = Inr (?mv @ vs)"
    using vs
    by (simp add: get_next_node_def it rel tr md sc Let_def split fm go g)
  have "\<forall>t < ?N. ?P t \<longrightarrow>
          (if t < n then
             map_of (?mv @ vs) t = Some (if int t = ?nx then [(la, direction)] else [(1, 0), (0, 0)])
           else tile_end (?info ! t) \<or> tile_start (?info ! t) \<longrightarrow>
                  map_of (?mv @ vs) t = Some [(1, - 1), (0, - 1)])
          \<and> map_of (?mv @ vs) t \<noteq> None"
  proof (intro allI impI)
    fix t assume t: "t < ?N" and p: "?P t"
    show "(if t < n then
             map_of (?mv @ vs) t = Some (if int t = ?nx then [(la, direction)] else [(1, 0), (0, 0)])
           else tile_end (?info ! t) \<or> tile_start (?info ! t) \<longrightarrow>
                  map_of (?mv @ vs) t = Some [(1, - 1), (0, - 1)])
          \<and> map_of (?mv @ vs) t \<noteq> None"
    proof (cases "t < n")
      case True
      then have mem: "t \<in> set ?ms" using p by simp
      have "track (?info ! t) = 0" using layout t True by simp
      then have "next_value e la ?nx t direction =
                   (if int t = ?nx then [(la, direction)] else [(1, 0), (0, 0)])"
        by (simp add: next_value_def)
      moreover have "map_of (?mv @ vs) t = Some (next_value e la ?nx t direction)"
        using map_of_map_key [OF mem, of "\<lambda>t. next_value e la ?nx t direction"]
        by (simp add: map_of_append del: upt_Suc)
      ultimately show ?thesis using True by simp
    next
      case False
      then have mem: "t \<in> set ?ss" using p t by simp
      have fresh: "t \<notin> fst ` set ?mv" unfolding keys using False by simp
      have pos: "track (?info ! t) > 0" using layout t False by auto
      have "t \<in> fst ` set vs" using mem k by (metis set_map)
      then have some: "map_of vs t \<noteq> None" by (simp add: map_of_eq_None_iff)
      have "map_of (?mv @ vs) t = map_of vs t" by (rule map_of_append_fresh [OF fresh])
      then show ?thesis using False m mem pos some by auto
    qed
  qed
  then show ?thesis using res by blast
qed

lemma main_caller_at_junction:
  "\<exists>r. get_next_node env_junction 149 0 1 = Inr r \<and> map_of r 150 = Some [(0, 1)]
     \<and> map_of r 450 \<noteq> None"
proof -
  have i: "self_info env_junction = map junction_row [0..<580]"
    and t: "self_tracks env_junction = [300, 280]"
    by (simp_all add: env_junction_def)
  have m: "(150 :: int) mod 300 = 150" by simp
  have "\<exists>r. get_next_node env_junction 149 0 1 = Inr r \<and>
           (\<forall>t < length (self_info env_junction).
              intersection_id (self_info env_junction ! t) = 150 \<longrightarrow>
              (if t < 300 then
                 map_of r t = Some (if int t = (int 149 + 1) mod int 300
                                    then [(0, 1)] else [(1, 0), (0, 0)])
               else tile_end (self_info env_junction ! t) \<or> tile_start (self_info env_junction ! t) \<longrightarrow>
                      map_of r t = Some [(1, - 1), (0, - 1)])
              \<and> map_of r t \<noteq> None)"
    by (rule main_caller_junction_successors [where others = "[280]"])
       (simp_all add: i t junction_row_def m del: upt_Suc)
  then obtain r where r: "get_next_node env_junction 149 0 1 = Inr r"
    and a: "\<forall>t < length (self_info env_junction).
              intersection_id (self_info env_junction ! t) = 150 \<longrightarrow>
              (if t < 300 then
                 map_of r t = Some (if int t = (int 149 + 1) mod int 300
                                    then [(0, 1)] else [(1, 0), (0, 0)])
               else tile_end (self_info env_junction ! t) \<or> tile_start (self_info env_junction ! t) \<longrightarrow>
                      map_of r t = Some [(1, - 1), (0, - 1)])
              \<and> map_of r t \<noteq> None"
    by blast
  have "map_of r 150 = Some [(0, 1)]" using a [rule_format, of 150] by (simp add: i junction_row_def m del: upt_Suc)
  moreover have "map_of r 450 \<noteq> None" using a [rule_format, of 450] by (simp add: i junction_row_def del: upt_Suc)
  ultimately show ?thesis using r by blast
qed

subsection \<open>A dead end\<close>

lemma spur_facts:
  "self_info env_spur = map spur_row [0..<580]" "self_tracks env_spur = [300, 280]"
  by (simp_all add: env_spur_def)

lemma spur_next_578: "get_next_node env_spur 578 0 1 = Inr [(579, [(0, 1)])]"
  by (simp add: get_next_node_def id_relative_of_def spur_facts item_map_upt item_Cons_0
      item_Cons_1 py_mod_def spur_row_def Let_def)

lemma spur_next_579: "get_next_node env_spur 579 0 1 = Inr []"
  by (simp add: get_next_node_def spur_facts item_map_upt spur_row_def)

lemma spur_step_1: "next_step env_spur [(578, [(0, 1)])] = Inr [(579, [(0, 1)])]"
  by (simp add: next_step_def entries_def tmp_preds_of_def spur_next_578 merge_pred_def)

lemma spur_step_2: "next_step env_spur [(579, [(0, 1)])] = Inr []"
  by (simp add: next_step_def entries_def tmp_preds_of_def spur_next_579 merge_pred_def)

lemma spur_refill:
  "refill env_spur [(578, [(0, 1)])] [] = Inr ([(579, [(0, 1)])] # replicate 9 [])"
proof -
  have "refill env_spur [(578, [(0, 1)])] [] = refill env_spur [(578, [(0, 1)])] [[(579, [(0, 1)])]]"
    by (rule refill_first [OF spur_step_1])
  also have "\<dots> = refill env_spur [(578, [(0, 1)])] ([[(579, [(0, 1)])]] @ [[]])"
    by (rule refill_more) (simp_all add: SHOW_NEXT_N_TILES_def spur_step_2)
  also have "\<dots> = Inr (([[(579, [(0, 1)])]] @ [[]]) @ replicate (SHOW_NEXT_N_TILES - 2) [])"
    using refill_after_empty [of "[[(579, [(0, 1)])]] @ [[]]" env_spur "[(578, [(0, 1)])]"] by simp
  finally show ?thesis by (simp add: SHOW_NEXT_N_TILES_def numeral_eq_Suc)
qed

lemma spur_enter:
  "add_current_tile env_spur False 578 0 (sim_reset []) =
     Inr ((sim_reset [])\<lparr>current_nodes := [(578, [(0, 1)])],
                          next_nodes := [(579, [(0, 1)])] # replicate 9 []\<rparr>)"
  by (simp add: add_current_tile_def id_relative_of_def spur_facts item_map_upt item_Cons_0
      item_Cons_1 py_mod_def spur_row_def Let_def sim_reset_def reconcile_def spur_refill)

lemma spur_reached: "add_current_tile env_spur False 578 0 (sim_reset []) = Inr spur_entered"
  by (simp add: spur_enter spur_entered_def)

lemma spur_step_both:
  "next_step env_spur [(578, [(0, 1)]), (579, [(0, 1)])] = Inr [(579, [(0, 1)])]"
  by (simp add: next_step_def entries_def tmp_preds_of_def spur_next_578 spur_next_579
      merge_pred_def)

lemma spur_refill_both:
  "refill env_spur [(578, [(0, 1)]), (579, [(0, 1)])] [] = Inr ([(579, [(0, 1)])] # replicate 9 [])"
proof -
  let ?cur = "[(578, [(0, 1)]), (579, [(0::nat, 1::int)])]"
  have "refill env_spur ?cur [] = refill env_spur ?cur [[(579, [(0, 1)])]]"
    by (rule refill_first [OF spur_step_both])
  also have "\<dots> = refill env_spur ?cur ([[(579, [(0, 1)])]] @ [[]])"
    by (rule refill_more) (simp_all add: SHOW_NEXT_N_TILES_def spur_step_2)
  also have "\<dots> = Inr (([[(579, [(0, 1)])]] @ [[]]) @ replicate (SHOW_NEXT_N_TILES - 2) [])"
    using refill_after_empty [of "[[(579, [(0, 1)])]] @ [[]]" env_spur ?cur] by simp
  finally show ?thesis by (simp add: SHOW_NEXT_N_TILES_def numeral_eq_Suc)
qed

lemma spur_head_consumed:
  "reconcile 579 0 1 ([(579, [(0, 1)])] # replicate 9 []) = [] # replicate 9 []"
  by (simp add: reconcile_def)

lemma spur_nothing_kept:
  "filter (\<lambda>step. length step > 0) (([] :: nodes) # replicate 9 []) = []"
  by simp

lemma spur_enter_end:
  "add_current_tile env_spur False 579 0 spur_entered = Inr spur_at_end"
  using spur_head_consumed spur_nothing_kept
  by (simp add: add_current_tile_def id_relative_of_def spur_facts item_map_upt item_Cons_0
      item_Cons_1 py_mod_def spur_row_def Let_def sim_reset_def spur_entered_def spur_at_end_def
      spur_refill_both del: filter.simps replicate.simps)

subsection \<open>The closed track\<close>

lemma loop_facts: "self_info env_loop = replicate 300 plain_tile" "self_tracks env_loop = [300]"
  by (simp_all add: env_loop_def track300_def create_info_lanes_def plain_tile_def)

lemma loop_next:
  assumes "k < 299"
  shows "get_next_node env_loop k l 1 = Inr [(Suc k, [(l, 1)])]"
proof -
  have m: "(1 + int k) mod 300 = 1 + int k" using assms by simp
  have n: "nat (1 + int k) = Suc k" by simp
  show ?thesis
    using assms
    by (simp add: get_next_node_def id_relative_of_def loop_facts item_replicate item_Cons_0
        py_mod_def plain_tile_def Let_def m n add.commute)
qed

lemma loop_step:
  assumes "k < 299"
  shows "next_step env_loop [(k, [(l, 1)])] = Inr [(Suc k, [(l, 1)])]"
  using loop_next [OF assms, of l]
  by (simp add: next_step_def entries_def tmp_preds_of_def merge_pred_def)

lemma loop_step_both:
  assumes "k < 299"
  shows "next_step env_loop [(k, both_lanes)] = Inr [(Suc k, both_lanes)]"
  using loop_next [OF assms, of 0] loop_next [OF assms, of 1]
  by (simp add: next_step_def entries_def tmp_preds_of_def merge_pred_def both_lanes_def)

lemma lane_path_snoc: "a \<le> b \<Longrightarrow> lane_path ls a b @ [[(b, ls)]] = lane_path ls a (Suc b)"
  by (simp add: lane_path_def)

lemma lane_path_last: "a < b \<Longrightarrow> last (lane_path ls a b) = [(b - 1, ls)]"
  by (cases b) (simp_all add: lane_path_def)

lemma lane_path_refill:
  assumes "\<And>k. k < 299 \<Longrightarrow> next_step env_loop [(k, ls)] = Inr [(Suc k, ls)]"
    and "a < b" and "b \<le> a + 10" and "a + 10 \<le> 299"
  shows "refill env_loop cur (lane_path ls a b) = Inr (lane_path ls a (a + 10))"
  using assms(2-)
proof (induction "a + 10 - b" arbitrary: b)
  case 0
  then have "b = a + 10" by simp
  then show ?case by (simp add: refill_done lane_path_def SHOW_NEXT_N_TILES_def)
next
  case (Suc d)
  then have lt: "b < a + 10" by simp
  have ne: "lane_path ls a b \<noteq> []" using Suc.prems by (simp add: lane_path_def)
  have len: "length (lane_path ls a b) < SHOW_NEXT_N_TILES"
    using lt Suc.prems by (simp add: lane_path_def SHOW_NEXT_N_TILES_def)
  have st: "next_step env_loop (last (lane_path ls a b)) = Inr [(b, ls)]"
    using assms(1) [of "b - 1"] Suc.prems lt by (simp add: lane_path_last)
  have "refill env_loop cur (lane_path ls a b) = refill env_loop cur (lane_path ls a (Suc b))"
    using refill_more [OF ne len st, of cur] Suc.prems by (simp add: lane_path_snoc)
  also have "\<dots> = Inr (lane_path ls a (a + 10))"
    using Suc.hyps(1) [of "Suc b"] Suc.hyps(2) Suc.prems lt by simp
  finally show ?case .
qed

lemma loop_refill:
  assumes "a < b" and "b \<le> a + 10" and "a + 10 \<le> 299"
  shows "refill env_loop cur (lane_path [(0, 1)] a b) = Inr (lane_path [(0, 1)] a (a + 10))"
  by (rule lane_path_refill [OF loop_step assms])

lemma loop_refill_both:
  assumes "a < b" and "b \<le> a + 10" and "a + 10 \<le> 299"
  shows "refill env_loop cur (lane_path both_lanes a b) = Inr (lane_path both_lanes a (a + 10))"
  by (rule lane_path_refill [OF loop_step_both assms])

lemma loop_rebuild: "refill env_loop [(5, [(0, 1)])] [] = Inr (lane_path [(0, 1)] 6 16)"
proof -
  have one: "lane_path [(0, 1)] 6 7 = [[(6, [(0, 1)])]]" by (simp add: lane_path_def)
  have "next_step env_loop [(5, [(0, 1)])] = Inr [(6, [(0, 1)])]"
    using loop_step [of 5 0] by simp
  from refill_first [OF this]
  have "refill env_loop [(5, [(0, 1)])] [] = refill env_loop [(5, [(0, 1)])] (lane_path [(0, 1)] 6 7)"
    by (simp add: one)
  then show ?thesis using loop_refill [of 6 7 "[(5, [(0, 1)])]"] by simp
qed

lemma lane_path_6: "lane_path [(0, 1)] 6 16 = [(6, [(0, 1)])] # lane_path [(0, 1)] 7 16"
  by (simp add: lane_path_def upt_conv_Cons)

lemma loop_prelude:
  "k < 300 \<Longrightarrow> id_relative_of env_loop k = Inr (int k)"
  "k < 300 \<Longrightarrow> item (self_info env_loop) (int k) = Inr plain_tile"
  "item (self_tracks env_loop) (int (track plain_tile)) = Inr 300"
  by (simp_all add: id_relative_of_def loop_facts item_replicate item_Cons_0 plain_tile_def)

lemma loop_enter_first:
  "add_current_tile env_loop False 5 0 (sim_reset []) = Inr loop_entered"
  using loop_prelude(1,2) [of 5] loop_prelude(3)
  by (simp add: add_current_tile_def py_mod_def Let_def sim_reset_def reconcile_def
      loop_rebuild loop_entered_def)

lemma loop_enter_again:
  "add_current_tile env_loop False 5 0 loop_entered = Inr loop_entered"
proof -
  have "reconcile 5 0 1 (lane_path [(0, 1)] 6 16) = []"
    by (simp add: reconcile_def lane_path_6)
  then show ?thesis
    using loop_prelude(1,2) [of 5] loop_prelude(3)
    by (simp add: add_current_tile_def py_mod_def Let_def sim_reset_def
        loop_rebuild loop_entered_def)
qed

lemma loop_enter_predicted:
  "add_current_tile env_loop False 6 0 loop_entered =
     Inr (loop_entered\<lparr>current_nodes := [(5, [(0, 1)]), (6, [(0, 1)])],
                        next_nodes := lane_path [(0, 1)] 7 17\<rparr>)"
proof -
  have c: "reconcile 6 0 1 (lane_path [(0, 1)] 6 16) = [] # lane_path [(0, 1)] 7 16"
    by (simp add: reconcile_def lane_path_6)
  have f: "filter (\<lambda>step. step \<noteq> []) ([] # lane_path [(0, 1)] 7 16) = lane_path [(0, 1)] 7 16"
    by (simp add: lane_path_def filter_id_conv)
  have r: "refill env_loop [(5, [(0, 1)]), (6, [(0, 1)])] (lane_path [(0, 1)] 7 16) = Inr (lane_path [(0, 1)] 7 17)"
    using loop_refill [of 7 16 "[(5, [(0, 1)]), (6, [(0, 1)])]"] by simp
  show ?thesis
    using loop_prelude(1,2) [of 6] loop_prelude(3)
    by (simp add: add_current_tile_def py_mod_def Let_def sim_reset_def c f r
        loop_entered_def del: filter.simps)
qed

subsection \<open>A road with two lanes\<close>

lemma for_each_snoc:
  "for_each f (xs @ [x]) s = (case for_each f xs s of Inl e \<Rightarrow> Inl e | Inr s' \<Rightarrow> f x s')"
  by (induction xs arbitrary: s) (auto split: sum.splits)

lemma tile_bodies_two_lanes:
  assumes "j < 300"
  shows "tile_bodies cfg_two cand track300 j bs = Inr (bs @ [tile_of j 0, tile_of j 1])"
proof -
  have u: "[0..<num_lanes cfg_two] = [0, 1]"
    by (simp add: cfg_two_def set_config_def upt_conv_Cons)
  have i: "item track300 (int j) = Inr plain_tile"
    using assms by (simp add: track300_def create_info_lanes_def item_replicate plain_tile_def)
  show ?thesis
    by (simp add: tile_bodies_def u i plain_tile_def item_Cons_0 item_Cons_1 tile_of_def)
qed

lemma create_tiles_upto:
  "k \<le> 300 \<Longrightarrow>
   for_each (tile_bodies cfg_two cand track300) [0..<k] [] =
     Inr (map (\<lambda>i. tile_of (i div 2) (i mod 2)) [0..<2 * k])"
proof (induction k)
  case 0
  then show ?case by simp
next
  case (Suc k)
  have "[0..<2 * Suc k] = [0..<2 * k] @ [2 * k, 2 * k + 1]" by simp
  then show ?case
    using Suc by (simp add: for_each_snoc tile_bodies_two_lanes)
qed

lemma create_tiles_two_lanes: "create_tiles cfg_two cand track300 = Inr road_two_lanes"
  using create_tiles_upto [of 300 cand]
  by (simp add: create_tiles_def road_two_lanes_def track300_def create_info_lanes_def)

lemma road_two_lanes_nth: "i < 600 \<Longrightarrow> road_two_lanes ! i = tile_of (i div 2) (i mod 2)"
  by (simp add: road_two_lanes_def)

lemma road_two_lanes_length: "length road_two_lanes = 600"
  by (simp add: road_two_lanes_def)

lemma contact_begin_tile:
  assumes "b < length (road s)" and "road s ! b = tile_of j l"
    and "add_current_tile e False j l s = Inr s2" and "module_env_bound e"
  shows "contact e (wheel_enters b) s =
           credit_visit e b (s2\<lparr>wheel_tiles := (wheel_tiles s2)(0 := insert b (wheel_tiles s2 0))\<rparr>)"
  using assms by (simp add: contact_def wheel_enters_def tile_of_def)

text \<open>
  Where the module was imported, the first begin contact of a wheel with a tile raises
  \<^verbatim>\<open>NameError\<close>.
\<close>

lemma contact_begin_tile_unbound:
  assumes "b < length (road s)" and "road s ! b = tile_of j l" and "\<not> module_env_bound e"
  shows "contact e (wheel_enters b) s = Inl NameError"
  using assms by (simp add: contact_def wheel_enters_def tile_of_def)

lemma loop_credit:
  assumes "b < length (road s)" and "\<not> road_visited (road s ! b)"
  shows "credit_visit env_loop b s =
           Inr (s\<lparr>road := (road s)[b := (road s ! b)\<lparr>road_visited := True\<rparr>],
                  reward := reward s + 1000 / 300,
                  tile_visited_count := tile_visited_count s + 1\<rparr>)"
proof -
  have len: "length (self_info env_loop) = 300" by (simp add: loop_facts)
  have mm: "min_episode_reward env_loop = None" "max_episode_reward env_loop = None"
    by (simp_all add: env_loop_def)
  show ?thesis using assms by (simp add: credit_visit_def len mm clip_def)
qed

lemma enter_first_lane:
  "contact env_loop (wheel_enters 10) (sim_reset road_two_lanes) = Inr after_first_lane"
proof -
  let ?s2 = "(sim_reset road_two_lanes)\<lparr>current_nodes := [(5, [(0, 1)])],
                                         next_nodes := lane_path [(0, 1)] 6 16\<rparr>"
  have a: "add_current_tile env_loop False 5 0 (sim_reset road_two_lanes) = Inr ?s2"
    using loop_prelude(1,2) [of 5] loop_prelude(3)
    by (simp add: add_current_tile_def py_mod_def Let_def sim_reset_def reconcile_def
        loop_rebuild)
  have n: "road (sim_reset road_two_lanes) ! 10 = tile_of 5 0"
    by (simp add: road_two_lanes_nth sim_reset_def)
  have l: "10 < length (road (sim_reset road_two_lanes))"
    by (simp add: road_two_lanes_length sim_reset_def)
  have "contact env_loop (wheel_enters 10) (sim_reset road_two_lanes) =
          credit_visit env_loop 10
            (?s2\<lparr>wheel_tiles := (wheel_tiles ?s2)(0 := insert 10 (wheel_tiles ?s2 0))\<rparr>)"
    by (rule contact_begin_tile [OF l n a]) (simp add: env_loop_def)
  also have "\<dots> = Inr after_first_lane"
    by (subst loop_credit)
       (simp_all add: sim_reset_def road_two_lanes_length road_two_lanes_nth tile_of_def
          after_first_lane_def)
  finally show ?thesis .
qed

lemma second_lane_rebuild: "refill env_loop [(5, both_lanes)] [] = Inr (lane_path both_lanes 6 16)"
proof -
  have one: "lane_path both_lanes 6 7 = [[(6, both_lanes)]]" by (simp add: lane_path_def)
  have "next_step env_loop [(5, both_lanes)] = Inr [(6, both_lanes)]"
    using loop_step_both [of 5] by simp
  from refill_first [OF this]
  have "refill env_loop [(5, both_lanes)] [] = refill env_loop [(5, both_lanes)] (lane_path both_lanes 6 7)"
    by (simp add: one)
  then show ?thesis using loop_refill_both [of 6 7 "[(5, both_lanes)]"] by simp
qed

lemma second_lane_entry:
  "add_current_tile env_loop False 5 1 after_first_lane =
     Inr (after_first_lane\<lparr>current_nodes := [(5, both_lanes)],
                           next_nodes := lane_path both_lanes 6 16\<rparr>)"
proof -
  have rc: "reconcile 5 1 1 (lane_path [(0, 1)] 6 16) = []"
    by (simp add: reconcile_def lane_path_6)
  show ?thesis
    using loop_prelude(1,2) [of 5] loop_prelude(3) second_lane_rebuild
    by (simp add: add_current_tile_def py_mod_def Let_def after_first_lane_def rc
        both_lanes_def del: One_nat_def)
qed

lemma enter_second_lane:
  "contact env_loop (wheel_enters 11) after_first_lane = Inr after_second_lane"
proof -
  let ?s2 = "after_first_lane\<lparr>current_nodes := [(5, both_lanes)],
                               next_nodes := lane_path both_lanes 6 16\<rparr>"
  have n: "road after_first_lane ! 11 = tile_of 5 1"
    by (simp add: after_first_lane_def road_two_lanes_nth road_two_lanes_length)
  have l: "11 < length (road after_first_lane)"
    by (simp add: after_first_lane_def road_two_lanes_length)
  have "contact env_loop (wheel_enters 11) after_first_lane =
          credit_visit env_loop 11
            (?s2\<lparr>wheel_tiles := (wheel_tiles ?s2)(0 := insert 11 (wheel_tiles ?s2 0))\<rparr>)"
    by (rule contact_begin_tile [OF l n second_lane_entry]) (simp add: env_loop_def)
  also have "\<dots> = Inr after_second_lane"
    by (subst loop_credit)
       (simp_all add: road_two_lanes_length road_two_lanes_nth tile_of_def
          after_first_lane_def after_second_lane_def insert_commute)
  finally show ?thesis .
qed

section \<open>Lookahead graph: the claims\<close>

text \<open>
  C2, as the code has it. When \<^verbatim>\<open>add_current_tile\<close> returns: if the first step of the
  frontier holds the entered tile and lane with the computed direction, only that entry
  is removed (the lane entry, or the tile entry when it was its only lane) and the steps
  left empty are dropped. What is kept of the old frontier, in its order, is the start
  of the new one. As long as a step is kept there is no rebuild: the new frontier is
  what the refill appends to the kept steps, whatever the occupancy is. When no step is
  kept, the new frontier is what the refill builds from the occupancy alone, starting
  from the empty frontier. In every other case (another tile, another lane, another
  direction, or an empty frontier) the new frontier is likewise built from the occupancy
  alone.
\<close>

theorem frontier_kept_after_matched_head_else_rebuilt:
  assumes "add_current_tile e reversed ident l s = Inr s'"
  shows "(\<forall>st rest ls. next_nodes s = st # rest \<and> map_of st ident = Some ls
            \<and> map_of ls l = Some (if reversed then - 1 else 1) \<longrightarrow>
            (let kept = filter (\<lambda>step. step \<noteq> [])
                          ((if length ls > 1 then AList.map_entry ident (AList.delete l) st
                            else AList.delete ident st) # rest)
             in (\<exists>new. next_nodes s' = kept @ new)
                \<and> (kept \<noteq> [] \<longrightarrow> (\<forall>cur. refill e cur kept = Inr (next_nodes s')))
                \<and> (kept = [] \<longrightarrow> refill e (current_nodes s') [] = Inr (next_nodes s'))))
       \<and> (\<not> (\<exists>st rest ls. next_nodes s = st # rest \<and> map_of st ident = Some ls
                \<and> map_of ls l = Some (if reversed then - 1 else 1)) \<longrightarrow>
            refill e (current_nodes s') [] = Inr (next_nodes s'))"
proof (intro conjI allI impI)
  fix st rest ls
  assume m: "next_nodes s = st # rest \<and> map_of st ident = Some ls
             \<and> map_of ls l = Some (if reversed then - 1 else 1)"
  define kept where "kept = filter (\<lambda>step. step \<noteq> [])
                          ((if length ls > 1 then AList.map_entry ident (AList.delete l) st
                            else AList.delete ident st) # rest)"
  have "reconcile ident l (if reversed then - 1 else 1) (next_nodes s) =
          (if length ls > 1 then AList.map_entry ident (AList.delete l) st
           else AList.delete ident st) # rest"
    using m reconcile_matched [of st ident ls l "if reversed then - 1 else 1" rest] by simp
  then have r: "refill e (current_nodes s') kept = Inr (next_nodes s')"
    using add_current_tile_frontier [OF assms] by (simp add: kept_def)
  have one: "\<exists>new. next_nodes s' = kept @ new" using refill_extends [OF r] .
  have two: "kept \<noteq> [] \<longrightarrow> (\<forall>cur. refill e cur kept = Inr (next_nodes s'))"
    using r refill_ignores_occupancy [of kept e _ "current_nodes s'"] by simp
  have three: "kept = [] \<longrightarrow> refill e (current_nodes s') [] = Inr (next_nodes s')"
    using r by auto
  show "let kept = filter (\<lambda>step. step \<noteq> [])
                          ((if length ls > 1 then AList.map_entry ident (AList.delete l) st
                            else AList.delete ident st) # rest)
        in (\<exists>new. next_nodes s' = kept @ new)
           \<and> (kept \<noteq> [] \<longrightarrow> (\<forall>cur. refill e cur kept = Inr (next_nodes s')))
           \<and> (kept = [] \<longrightarrow> refill e (current_nodes s') [] = Inr (next_nodes s'))"
    unfolding Let_def kept_def [symmetric] using one two three by blast
next
  assume "\<not> (\<exists>st rest ls. next_nodes s = st # rest \<and> map_of st ident = Some ls
                \<and> map_of ls l = Some (if reversed then - 1 else 1))"
  from reconcile_unmatched [OF this]
  show "refill e (current_nodes s') [] = Inr (next_nodes s')"
    using add_current_tile_frontier [OF assms] by simp
qed

theorem frontier_kept_after_matched_head_else_rebuilt_witness:
  "add_current_tile env_loop False 6 0 loop_entered =
     Inr (loop_entered\<lparr>current_nodes := [(5, [(0, 1)]), (6, [(0, 1)])],
                        next_nodes := lane_path [(0, 1)] 7 17\<rparr>)
   \<and> next_nodes loop_entered = [(6, [(0, 1)])] # lane_path [(0, 1)] 7 16
   \<and> (\<exists>new. lane_path [(0, 1)] 7 17 = lane_path [(0, 1)] 7 16 @ new)
   \<and> (\<forall>cur. refill env_loop cur (lane_path [(0, 1)] 7 16) = Inr (lane_path [(0, 1)] 7 17))
   \<and> add_current_tile env_spur False 579 0 spur_entered = Inr spur_at_end
   \<and> refill env_spur [(578, [(0, 1)]), (579, [(0, 1)])] []
       = Inr ([(579, [(0, 1)])] # replicate 9 [])
   \<and> add_current_tile env_loop False 5 0 loop_entered = Inr loop_entered
   \<and> refill env_loop (current_nodes loop_entered) [] = Inr (next_nodes loop_entered)"
proof -
  have nx: "next_nodes loop_entered = [(6, [(0, 1)])] # lane_path [(0, 1)] 7 16"
    by (simp add: loop_entered_def sim_reset_def lane_path_6)
  have k: "filter (\<lambda>step. step \<noteq> []) ([] # lane_path [(0, 1)] 7 16) = lane_path [(0, 1)] 7 16"
    by (simp add: lane_path_def filter_id_conv)
  have ne: "lane_path [(0, 1)] 7 16 \<noteq> []" by (simp add: lane_path_def)
  have "let kept = filter (\<lambda>step. step \<noteq> [])
                     ((if length [(0::nat, 1::int)] > 1
                       then AList.map_entry 6 (AList.delete 0) [(6, [(0, 1)])]
                       else AList.delete 6 [(6, [(0, 1)])]) # lane_path [(0, 1)] 7 16)
        in (\<exists>new. next_nodes (loop_entered\<lparr>current_nodes := [(5, [(0, 1)]), (6, [(0, 1)])],
                                       next_nodes := lane_path [(0, 1)] 7 17\<rparr>) = kept @ new)
           \<and> (kept \<noteq> [] \<longrightarrow>
                (\<forall>cur. refill env_loop cur kept =
                   Inr (next_nodes (loop_entered\<lparr>current_nodes := [(5, [(0, 1)]), (6, [(0, 1)])],
                                       next_nodes := lane_path [(0, 1)] 7 17\<rparr>))))
           \<and> (kept = [] \<longrightarrow>
                refill env_loop
                  (current_nodes (loop_entered\<lparr>current_nodes := [(5, [(0, 1)]), (6, [(0, 1)])],
                                       next_nodes := lane_path [(0, 1)] 7 17\<rparr>)) [] =
                Inr (next_nodes (loop_entered\<lparr>current_nodes := [(5, [(0, 1)]), (6, [(0, 1)])],
                                       next_nodes := lane_path [(0, 1)] 7 17\<rparr>)))"
    using frontier_kept_after_matched_head_else_rebuilt [OF loop_enter_predicted] nx by simp
  then have m: "(\<exists>new. lane_path [(0, 1)] 7 17 = lane_path [(0, 1)] 7 16 @ new)
      \<and> (\<forall>cur. refill env_loop cur (lane_path [(0, 1)] 7 16) = Inr (lane_path [(0, 1)] 7 17))"
    using k ne by (simp add: Let_def del: filter.simps)
  have sx: "next_nodes spur_entered = [(579, [(0, 1)])] # replicate 9 []"
    by (simp add: spur_entered_def sim_reset_def del: replicate.simps)
  have sk: "filter (\<lambda>step. step \<noteq> []) (([] :: nodes) # replicate 9 []) = []" by simp
  have "let kept = filter (\<lambda>step. step \<noteq> [])
                     ((if length [(0::nat, 1::int)] > 1
                       then AList.map_entry 579 (AList.delete 0) [(579, [(0, 1)])]
                       else AList.delete 579 [(579, [(0, 1)])]) # replicate 9 [])
        in (\<exists>new. next_nodes spur_at_end = kept @ new)
           \<and> (kept \<noteq> [] \<longrightarrow> (\<forall>cur. refill env_spur cur kept = Inr (next_nodes spur_at_end)))
           \<and> (kept = [] \<longrightarrow>
                refill env_spur (current_nodes spur_at_end) [] = Inr (next_nodes spur_at_end))"
    using frontier_kept_after_matched_head_else_rebuilt [OF spur_enter_end] sx by simp
  then have e: "refill env_spur [(578, [(0, 1)]), (579, [(0, 1)])] []
                  = Inr ([(579, [(0, 1)])] # replicate 9 [])"
    using sk by (simp add: Let_def spur_at_end_def sim_reset_def del: filter.simps replicate.simps)
  have "\<not> (\<exists>st rest ls. next_nodes loop_entered = st # rest \<and> map_of st 5 = Some ls
            \<and> map_of ls 0 = Some (if False then - 1 else 1))"
    by (simp add: nx)
  then have u: "refill env_loop (current_nodes loop_entered) [] = Inr (next_nodes loop_entered)"
    using frontier_kept_after_matched_head_else_rebuilt [OF loop_enter_again] by blast
  show ?thesis using loop_enter_predicted nx m spur_enter_end e loop_enter_again u by blast
qed

text \<open>
  C2 as stated fails one tile before a dead end. The vehicle is on tile 578, lane 0, of
  the cut track, heading forward; the frontier is tile 579, the end of the sub-track,
  followed by nine empty steps. It enters tile 579 on lane 0 with the same heading: the
  first step of the frontier holds that tile, lane and direction, and the entry is
  consumed. Nothing is left of the old frontier, all ten steps being empty now, and the
  new frontier is the one the refill builds from the occupancy alone, starting from the
  empty frontier: entering the head of the frontier did trigger a full rebuild.
\<close>

theorem matched_head_before_dead_end_rebuilds:
  "add_current_tile env_spur False 578 0 (sim_reset []) = Inr spur_entered
   \<and> next_nodes spur_entered = [(579, [(0, 1)])] # replicate 9 []
   \<and> reconcile 579 0 1 (next_nodes spur_entered) = [] # replicate 9 []
   \<and> filter (\<lambda>step. length step > 0) (reconcile 579 0 1 (next_nodes spur_entered)) = []
   \<and> add_current_tile env_spur False 579 0 spur_entered = Inr spur_at_end
   \<and> refill env_spur (current_nodes spur_at_end) [] = Inr (next_nodes spur_at_end)"
proof -
  have sx: "next_nodes spur_entered = [(579, [(0, 1)])] # replicate 9 []"
    by (simp add: spur_entered_def sim_reset_def del: replicate.simps)
  have r: "refill env_spur (current_nodes spur_at_end) [] = Inr (next_nodes spur_at_end)"
    by (simp add: spur_at_end_def sim_reset_def spur_refill_both del: replicate.simps)
  show ?thesis
    using spur_reached spur_enter_end r spur_head_consumed spur_nothing_kept
    by (simp add: sx del: filter.simps replicate.simps)
qed

text \<open>
  C3, as the code has it. In an episode (any run of contact events from \<^verbatim>\<open>reset\<close> on
  that raised no exception), whenever \<^verbatim>\<open>add_current_tile\<close> returns, the frontier holds
  exactly \<open>N = 10\<close> steps, near a dead end or not.
\<close>

theorem frontier_holds_ten_steps_after_entry:
  assumes "contacts e cs (sim_reset bodies) = Inr s"
    and "add_current_tile e reversed ident l s = Inr s'"
  shows "length (next_nodes s') = 10"
proof -
  have "length (next_nodes (sim_reset bodies)) \<le> SHOW_NEXT_N_TILES"
    by (simp add: sim_reset_def)
  from contacts_length [OF assms(1) this] add_current_tile_length [OF assms(2)]
  show ?thesis by (simp add: SHOW_NEXT_N_TILES_def)
qed

theorem frontier_holds_ten_steps_after_entry_witness:
  "contacts env_loop [wheel_enters 10] (sim_reset road_two_lanes) = Inr after_first_lane
   \<and> add_current_tile env_loop False 5 1 after_first_lane =
       Inr (after_first_lane\<lparr>current_nodes := [(5, both_lanes)],
                             next_nodes := lane_path both_lanes 6 16\<rparr>)
   \<and> length (lane_path both_lanes 6 16) = 10"
proof -
  have c: "contacts env_loop [wheel_enters 10] (sim_reset road_two_lanes) = Inr after_first_lane"
    by (simp add: contacts_def enter_first_lane)
  from frontier_holds_ten_steps_after_entry [OF c second_lane_entry]
  show ?thesis using c second_lane_entry by simp
qed

text \<open>
  C3 as stated fails one tile before a dead end. The vehicle enters tile 578, lane 0,
  heading forward; tile 579 is the end of its sub-track. The occupancy is not empty and
  the dead end is one step away, and the frontier is not shorter than 10: its first
  step is tile 579 and the nine steps after it are empty.
\<close>

theorem frontier_not_shorter_before_dead_end:
  "add_current_tile env_spur False 578 0 (sim_reset []) =
     Inr ((sim_reset [])\<lparr>current_nodes := [(578, [(0, 1)])],
                          next_nodes := [(579, [(0, 1)])] # replicate 9 []\<rparr>)
   \<and> tile_end (self_info env_spur ! 579)
   \<and> length ([(579, [(0, 1)])] # replicate 9 ([] :: nodes)) = 10"
  by (simp add: spur_enter spur_facts spur_row_def)

text \<open>
  C1, evaluated where the code departs from it. The file runs as a script, so that the
  module-level name \<^verbatim>\<open>env\<close> is bound and the graph calls of \<^verbatim>\<open>_contact\<close> go through. The
  flag \<^verbatim>\<open>road_visited\<close> belongs to a
  body, and a tile with two lanes has two bodies. Bodies 10 and 11 of the two-lane road
  are lane 0 and lane 1 of tile 5. Wheel 0 touches one and then the other: the second
  begin contact on tile 5 finds its own flag unset, so the reward is added and
  \<^verbatim>\<open>tile_visited_count\<close> is incremented a second time for the same tile.
\<close>

theorem second_lane_of_tile_credited_again:
  "module_env_bound env_loop
   \<and> body_id (road_two_lanes ! 10) = Some 5 \<and> body_id (road_two_lanes ! 11) = Some 5
   \<and> contacts env_loop [wheel_enters 10, wheel_enters 11] (sim_reset road_two_lanes)
       = Inr after_second_lane
   \<and> tile_visited_count after_second_lane = 2
   \<and> reward after_second_lane = 2 * (1000 / 300)"
proof -
  have "module_env_bound env_loop" by (simp add: env_loop_def)
  then show ?thesis
    by (simp add: contacts_def enter_first_lane enter_second_lane road_two_lanes_nth tile_of_def
        after_second_lane_def)
qed

section \<open>Tile construction and \<^verbatim>\<open>reset\<close>: proofs\<close>

lemma for_each_error_kind:
  assumes "for_each f xs s = Inl x"
    and "\<And>y t z. y \<in> set xs \<Longrightarrow> f y t = Inl z \<Longrightarrow> z = E"
  shows "x = E"
  using assms
proof (induction xs arbitrary: s)
  case Nil
  then show ?case by simp
next
  case (Cons y ys)
  show ?case
  proof (cases "f y s")
    case (Inl z)
    then show ?thesis using Cons.prems by auto
  next
    case (Inr t)
    then have "for_each f ys t = Inl x" using Cons.prems(1) by simp
    then show ?thesis using Cons.IH Cons.prems(2) by (meson list.set_intros(2))
  qed
qed

lemma for_each_raises:
  assumes "y \<in> set xs" and "\<And>t. f y t = Inl E"
    and "\<And>y t z. y \<in> set xs \<Longrightarrow> f y t = Inl z \<Longrightarrow> z = E"
  shows "for_each f xs s = Inl E"
proof (cases "for_each f xs s")
  case (Inl x)
  then show ?thesis using for_each_error_kind [OF Inl] assms(3) by blast
next
  case (Inr s')
  have "\<And>s. for_each f xs s \<noteq> Inr s'" for s'
    using assms(1,2)
  proof (induction xs)
    case Nil
    then show ?case by simp
  next
    case (Cons a xs)
    show ?case
    proof (cases "a = y")
      case True
      then show ?thesis using Cons.prems(2) by simp
    next
      case False
      then have "y \<in> set xs" using Cons.prems(1) by simp
      from Cons.IH [OF this Cons.prems(2)] show ?thesis by (auto split: sum.splits)
    qed
  qed
  then show ?thesis using Inr by blast
qed

lemma tile_bodies_error_kind:
  assumes "tile_bodies cfg cand info j bs = Inl x" and "j < length info"
    and "two_masks info" and "num_lanes cfg \<le> 2"
  shows "x = RuntimeError"
proof (rule for_each_error_kind [OF assms(1) [unfolded tile_bodies_def]])
  fix y t z
  assume y: "y \<in> set [0..<num_lanes cfg]"
    and f: "(case item info (int j) of
               Inl x \<Rightarrow> Inl x
             | Inr ti \<Rightarrow>
               (case item (lanes ti) (int y) of
                  Inl x \<Rightarrow> Inl x
                | Inr enabled \<Rightarrow>
                  if enabled then
                    (if (tile_end ti \<or> tile_start ti) \<and> cand j y = 0 then Inl RuntimeError
                     else Inr (t @ [\<lparr> body_typename = TILE_NAME, body_id = Some j,
                                       body_lane = Some y, road_visited = False \<rparr>]))
                  else Inr t)) = Inl z"
  have i: "item info (int j) = Inr (info ! j)" using assms(2) by (simp add: item_nat)
  have "y < length (lanes (info ! j))" using y assms(2,3,4) by (simp add: two_masks_def)
  then have l: "item (lanes (info ! j)) (int y) = Inr (lanes (info ! j) ! y)"
    by (simp add: item_nat)
  show "z = RuntimeError" using f by (simp add: i l split: if_splits)
qed

lemma tile_bodies_raises:
  assumes "j < length info" and "two_masks info" and "num_lanes cfg \<le> 2"
    and "l < num_lanes cfg" and "lanes (info ! j) ! l"
    and "tile_end (info ! j) \<or> tile_start (info ! j)" and "cand j l = 0"
  shows "tile_bodies cfg cand info j bs = Inl RuntimeError"
  unfolding tile_bodies_def
proof (rule for_each_raises [where y = l])
  show "l \<in> set [0..<num_lanes cfg]" using assms(4) by simp
  have i: "item info (int j) = Inr (info ! j)" using assms(1) by (simp add: item_nat)
  have "l < length (lanes (info ! j))" using assms(1,2,3,4) by (simp add: two_masks_def)
  then have li: "item (lanes (info ! j)) (int l) = Inr (lanes (info ! j) ! l)"
    by (simp add: item_nat)
  show "\<And>t. (case item info (int j) of
               Inl x \<Rightarrow> Inl x
             | Inr ti \<Rightarrow>
               (case item (lanes ti) (int l) of
                  Inl x \<Rightarrow> Inl x
                | Inr enabled \<Rightarrow>
                  if enabled then
                    (if (tile_end ti \<or> tile_start ti) \<and> cand j l = 0 then Inl RuntimeError
                     else Inr (t @ [\<lparr> body_typename = TILE_NAME, body_id = Some j,
                                       body_lane = Some l, road_visited = False \<rparr>]))
                  else Inr t)) = Inl RuntimeError"
    using assms(5,6,7) by (simp add: i li)
next
  fix y t z
  assume y: "y \<in> set [0..<num_lanes cfg]"
    and f: "(case item info (int j) of
               Inl x \<Rightarrow> Inl x
             | Inr ti \<Rightarrow>
               (case item (lanes ti) (int y) of
                  Inl x \<Rightarrow> Inl x
                | Inr enabled \<Rightarrow>
                  if enabled then
                    (if (tile_end ti \<or> tile_start ti) \<and> cand j y = 0 then Inl RuntimeError
                     else Inr (t @ [\<lparr> body_typename = TILE_NAME, body_id = Some j,
                                       body_lane = Some y, road_visited = False \<rparr>]))
                  else Inr t)) = Inl z"
  have i: "item info (int j) = Inr (info ! j)" using assms(1) by (simp add: item_nat)
  have "y < length (lanes (info ! j))" using y assms(1,2,3) by (simp add: two_masks_def)
  then have l: "item (lanes (info ! j)) (int y) = Inr (lanes (info ! j) ! y)"
    by (simp add: item_nat)
  show "z = RuntimeError" using f by (simp add: i l split: if_splits)
qed

lemma create_tiles_raises:
  assumes "j < length info" and "two_masks info" and "num_lanes cfg \<le> 2"
    and "l < num_lanes cfg" and "lanes (info ! j) ! l"
    and "tile_end (info ! j) \<or> tile_start (info ! j)" and "cand j l = 0"
  shows "create_tiles cfg cand info = Inl RuntimeError"
  unfolding create_tiles_def
proof (rule for_each_raises [where y = j])
  show "j \<in> set [0..<length info]" using assms(1) by simp
  show "\<And>t. tile_bodies cfg cand info j t = Inl RuntimeError"
    by (rule tile_bodies_raises [where cand = cand, OF assms])
  show "\<And>y t z. y \<in> set [0..<length info] \<Longrightarrow> tile_bodies cfg cand info y t = Inl z \<Longrightarrow>
          z = RuntimeError"
    using tile_bodies_error_kind assms(2,3) by auto
qed

lemma reset_loop_raises:
  assumes "\<forall>i. m \<le> i \<and> i < k \<longrightarrow> create_track cfg (attempts i) = Inr False"
    and "create_track cfg (attempts k) = Inl x" and "m \<le> k"
  shows "reset_loop cfg attempts m = Some (Inl x)"
  using assms
proof (induction "k - m" arbitrary: m)
  case 0
  then have "m = k" by simp
  then show ?case using "0.prems"(2) by (subst reset_loop.simps) simp
next
  case (Suc d)
  then have lt: "m < k" by simp
  then have f: "create_track cfg (attempts m) = Inr False" using Suc.prems(1) by simp
  have "reset_loop cfg attempts (Suc m) = Some (Inl x)"
    using Suc.hyps(1) [of "Suc m"] Suc.hyps(2) Suc.prems lt by simp
  then show ?case using f by (subst reset_loop.simps) simp
qed

text \<open>The retryable return: after a falsy \<^verbatim>\<open>_create_track\<close> the loop calls it again.\<close>

lemma reset_loop_retries:
  "create_track cfg (attempts k) = Inr False \<Longrightarrow>
   reset_loop cfg attempts k = reset_loop cfg attempts (Suc k)"
  by (subst reset_loop.simps) simp

text \<open>
  C9. When generation reaches tile construction and the candidate search finds no point
  for an enabled lane of a start or end tile, \<^verbatim>\<open>_create_track\<close> leaves with
  \<^verbatim>\<open>RuntimeError\<close>, which is not its retryable return \<^verbatim>\<open>False\<close>; after any number of
  retried attempts, \<^verbatim>\<open>reset\<close> makes no further attempt and the exception leaves it.
\<close>

theorem missing_candidates_abort_reset:
  assumes "\<forall>i < k. create_track cfg (attempts i) = Inr False"
    and "list_all (got_track (attempts k)) [0..<num_tracks cfg]"
    and "num_tracks cfg > 1 \<longrightarrow> roads_ok (attempts k)"
    and "num_lanes cfg \<le> 2"
    and "set_lanes cfg (lane_draws (attempts k)) (lane_rnd (attempts k))
           (create_info_lanes (made_info (attempts k))) = Inr info"
    and "j < length info" and "l < num_lanes cfg" and "lanes (info ! j) ! l"
    and "tile_end (info ! j) \<or> tile_start (info ! j)"
    and "p3_found (attempts k) j l = 0"
  shows "create_track cfg (attempts k) = Inl RuntimeError
         \<and> create_track cfg (attempts k) \<noteq> Inr False
         \<and> reset cfg attempts = Some (Inl RuntimeError)"
proof -
  have "all_kept info" using set_lanes_all_kept [OF assms(5)] by simp
  then have tm: "two_masks info" by (auto simp: all_kept_def two_masks_def one_lane_kept_def)
  have ct: "create_tiles cfg (p3_found (attempts k)) info = Inl RuntimeError"
    by (rule create_tiles_raises [where cand = "p3_found (attempts k)", OF assms(6) tm assms(4) assms(7-10)])
  have c: "create_track cfg (attempts k) = Inl RuntimeError"
    using assms(2,3,5) ct by (simp add: create_track_def)
  have r: "reset_loop cfg attempts i = Some (Inl RuntimeError)" if "i \<le> k" for i
    using reset_loop_raises [of i k cfg attempts RuntimeError] assms(1) c that by simp
  show ?thesis using c r [of 0] by (simp add: reset_def)
qed

theorem missing_candidates_abort_reset_witness:
  "create_track cfg_spur (attempts_spur 0) = Inr False
   \<and> create_track cfg_spur (attempts_spur 1) = Inl RuntimeError
   \<and> reset cfg_spur attempts_spur = Some (Inl RuntimeError)"
proof -
  have c: "num_tracks cfg_spur = 2" "num_lanes cfg_spur = 1" "num_lanes_changes cfg_spur = 0"
    by (simp_all add: cfg_spur_def set_config_def)
  have u: "[0..<num_tracks cfg_spur] = [0, 1]" by (simp add: c upt_conv_Cons)
  have f: "create_track cfg_spur (attempts_spur 0) = Inr False"
    by (simp add: create_track_def u attempts_spur_def)
  have e: "\<forall>i < 1. create_track cfg_spur (attempts_spur i) = Inr False" using f by simp
  have g: "list_all (got_track (attempts_spur 1)) [0..<num_tracks cfg_spur]"
    by (simp add: u attempts_spur_def)
  have r: "num_tracks cfg_spur > 1 \<longrightarrow> roads_ok (attempts_spur 1)"
    by (simp add: attempts_spur_def)
  have s: "set_lanes cfg_spur (lane_draws (attempts_spur 1)) (lane_rnd (attempts_spur 1))
             (create_info_lanes (made_info (attempts_spur 1)))
           = Inr (create_info_lanes (map spur_row [0..<580]))"
    by (simp add: set_lanes_def c attempts_spur_def)
  have t: "579 < length (create_info_lanes (map spur_row [0..<580]))"
    "lanes (create_info_lanes (map spur_row [0..<580]) ! 579) ! 0"
    "tile_end (create_info_lanes (map spur_row [0..<580]) ! 579)
       \<or> tile_start (create_info_lanes (map spur_row [0..<580]) ! 579)"
    "p3_found (attempts_spur 1) 579 0 = 0"
    by (simp_all add: create_info_lanes_def spur_row_def attempts_spur_def del: upt_Suc)
  have "create_track cfg_spur (attempts_spur 1) = Inl RuntimeError
        \<and> create_track cfg_spur (attempts_spur 1) \<noteq> Inr False
        \<and> reset cfg_spur attempts_spur = Some (Inl RuntimeError)"
    by (rule missing_candidates_abort_reset [OF e g r _ s t(1) _ t(2,3,4)]) (simp_all add: c)
  then show ?thesis using f by simp
qed

section \<open>Path synthesizer: proofs\<close>

lemma cursor_pass_facts:
  "no_freeze (cursor_pass obs c) = no_freeze c"
  "length (points (cursor_pass obs c)) = Suc (length (points c))"
  "laps (cursor_pass obs c) = laps c \<or> laps (cursor_pass obs c) = laps c + 1"
  by (simp_all add: cursor_pass_def Let_def)

lemma cursor_loop_ends:
  assumes "0 < no_freeze c" and "laps c \<le> 4"
    and "int (length (points c)) + no_freeze c = 2500"
  shows "\<exists>r. cursor_loop obs c = Some r \<and> length (points r) \<le> 2500
           \<and> (laps r = 5 \<and> 0 < no_freeze r
                \<or> laps r \<le> 4 \<and> no_freeze r = 0 \<and> length (points r) = 2500)"
  using assms
proof (induction "nat (no_freeze c)" arbitrary: c)
  case 0
  then show ?case by simp
next
  case (Suc d)
  let ?c1 = "cursor_pass obs c"
  note f = cursor_pass_facts [of obs c]
  show ?case
  proof (cases "laps ?c1 > 4")
    case True
    then have "laps ?c1 = 5" using f(3) Suc.prems(2) by auto
    moreover have "cursor_loop obs c = Some ?c1"
      using True by (subst cursor_loop.simps) simp
    ultimately show ?thesis using f(1,2) Suc.prems by auto
  next
    case False
    show ?thesis
    proof (cases "no_freeze ?c1 - 1 = 0")
      case True
      have "cursor_loop obs c = Some (?c1\<lparr>no_freeze := no_freeze ?c1 - 1\<rparr>)"
        using False True by (subst cursor_loop.simps) simp
      then show ?thesis using False True f(1,2) Suc.prems by auto
    next
      case nz: False
      let ?c2 = "?c1\<lparr>no_freeze := no_freeze ?c1 - 1\<rparr>"
      have eq: "cursor_loop obs c = cursor_loop obs ?c2"
        using False nz by (subst cursor_loop.simps) simp
      have "d = nat (no_freeze ?c2)" using Suc.hyps(2) f(1) by simp
      moreover have "0 < no_freeze ?c2" using Suc.prems(1) nz f(1) by simp
      moreover have "laps ?c2 \<le> 4" using False by simp
      moreover have "int (length (points ?c2)) + no_freeze ?c2 = 2500"
        using Suc.prems(3) f(1,2) by simp
      ultimately show ?thesis using Suc.hyps(1) [of ?c2] eq by simp
    qed
  qed
qed

text \<open>
  C8, as the code has it. Whatever the cursor does, the loop ends within 2500 passes:
  either as soon as the lap counter exceeds 4, that is with the fifth lap counted and
  budget left, or with the budget used up after exactly 2500 passes and at most 4 laps
  counted.
\<close>

theorem cursor_loop_terminates:
  "\<exists>r. cursor_loop obs cursor_start = Some r \<and> length (points r) \<le> 2500
     \<and> (laps r = 5 \<and> 0 < no_freeze r
          \<or> laps r \<le> 4 \<and> no_freeze r = 0 \<and> length (points r) = 2500)"
  by (rule cursor_loop_ends) (simp_all add: cursor_start_def)

subsection \<open>A cursor that gets stuck after four laps\<close>

lemma stuck_laps_step:
  "stuck_laps (Suc k) =
     (if stuck_side k \<and> fst (stuck_obs k) = Positive then stuck_laps k + 1 else stuck_laps k)"
  by (simp add: stuck_laps_def stuck_side_def stuck_obs_def in_lower_half_def)

lemma stuck_side_next: "stuck_side (Suc k) = in_lower_half k"
  unfolding stuck_side_def in_lower_half_def by linarith

lemma stuck_negative: "fst (stuck_obs k) = Negative \<longleftrightarrow> in_lower_half k"
  by (auto simp: stuck_obs_def in_lower_half_def)

lemma stuck_positive: "\<not> in_lower_half k \<Longrightarrow> stuck_side k \<Longrightarrow> fst (stuck_obs k) = Positive"
  by (auto simp: stuck_obs_def stuck_side_def)

lemma stuck_side_step:
  "stuck_side (Suc k) =
     (if fst (stuck_obs k) = Negative then True
      else if stuck_side k \<and> fst (stuck_obs k) = Positive then False else stuck_side k)"
proof (cases "in_lower_half k")
  case True
  then show ?thesis by (simp add: stuck_side_next stuck_negative)
next
  case False
  then show ?thesis using stuck_positive [OF False] by (auto simp: stuck_side_next stuck_negative)
qed

lemma stuck_pass:
  "cursor_pass stuck_obs (stuck_at k) = (stuck_at (Suc k))\<lparr>no_freeze := 2500 - int k\<rparr>"
proof -
  have s: "snd (stuck_obs k) = (\<not> before_seam k)" by (simp add: stuck_obs_def)
  show ?thesis
    unfolding cursor_pass_def Let_def
    by (simp add: stuck_at_def stuck_laps_step stuck_side_step s del: of_nat_Suc)
qed

lemma stuck_laps_le: "stuck_laps k \<le> 4"
  by (simp add: stuck_laps_def)

lemma stuck_loop:
  assumes "k < 2500"
  shows "cursor_loop stuck_obs (stuck_at k) = Some (stuck_at 2500)"
  using assms
proof (induction "2500 - k" arbitrary: k)
  case 0
  then show ?case by simp
next
  case (Suc d)
  have l: "\<not> laps ((stuck_at (Suc k))\<lparr>no_freeze := 2500 - int k\<rparr>) > 4"
    using stuck_laps_le [of "Suc k"] by (simp add: stuck_at_def)
  show ?case
  proof (cases "k = 2499")
    case True
    have "(stuck_at (Suc k))\<lparr>no_freeze := 2500 - int k - 1\<rparr> = stuck_at 2500"
      using True by (simp add: stuck_at_def)
    then show ?thesis
      using l True by (subst cursor_loop.simps) (simp add: stuck_pass)
  next
    case False
    then have lt: "Suc k < 2500" using Suc.prems by simp
    have e: "(stuck_at (Suc k))\<lparr>no_freeze := 2499 - int k\<rparr> = stuck_at (Suc k)"
      by (simp add: stuck_at_def)
    have "cursor_loop stuck_obs (stuck_at k) = cursor_loop stuck_obs (stuck_at (Suc k))"
      using l False Suc.prems by (subst cursor_loop.simps) (simp add: stuck_pass e)
    then show ?thesis using Suc.hyps(1) [of "Suc k"] Suc.hyps(2) lt by simp
  qed
qed

lemma stuck_start: "stuck_at 0 = cursor_start"
  by (simp add: stuck_at_def cursor_start_def stuck_laps_def stuck_side_def)

lemma stuck_end:
  "stuck_at 2500 = \<lparr> laps = 4, visited_other_side = False, no_freeze = 0,
                      points = map (\<lambda>j. \<not> before_seam j) [0..<2500] \<rparr>"
  by (simp add: stuck_at_def stuck_laps_def stuck_side_def)

declare find_loop.simps [simp del]

lemma find_loop_edge:
  assumes "0 < j" and "j < length pts" and "pts ! j" and "\<not> pts ! (j - 1)"
  shows "find_loop pts (int j + 1) i2 =
           (if i2 = - 1 then find_loop pts (int j) (int j) else Inr (Some (int j, i2)))"
proof -
  have a: "item pts (int j) = Inr True" using assms(2,3) by (simp add: item_nat)
  have "item pts (int (j - 1)) = Inr False" using assms(2,4) by (simp add: item_nat)
  then have b: "item pts (int j - 1) = Inr False" using assms(1) by (simp add: of_nat_diff)
  show ?thesis using assms(1) by (subst find_loop.simps) (simp add: a b)
qed

lemma find_loop_no_edge:
  assumes "0 < j" and "j < length pts" and "\<not> (pts ! j \<and> \<not> pts ! (j - 1))"
  shows "find_loop pts (int j + 1) i2 = find_loop pts (int j) i2"
proof -
  have a: "item pts (int j) = Inr (pts ! j)" using assms(2) by (simp add: item_nat)
  have "item pts (int (j - 1)) = Inr (pts ! (j - 1))" using assms(2) by (simp add: item_nat)
  then have b: "item pts (int j - 1) = Inr (pts ! (j - 1))" using assms(1) by (simp add: of_nat_diff)
  show ?thesis using assms(1,3) by (subst find_loop.simps) (auto simp: a b)
qed

lemma find_loop_skip:
  assumes "a \<le> b" and "b < length pts" 
    and "\<forall>j. a < j \<and> j \<le> b \<longrightarrow> \<not> (pts ! j \<and> \<not> pts ! (j - 1))"
  shows "find_loop pts (int b + 1) i2 = find_loop pts (int a + 1) i2"
  using assms
proof (induction "b - a" arbitrary: b)
  case 0
  then show ?case by simp
next
  case (Suc d)
  then have lt: "a < b" by simp
  have s1: "find_loop pts (int b + 1) i2 = find_loop pts (int b) i2"
    by (rule find_loop_no_edge) (use Suc.prems lt in auto)
  have s2: "int b = int (b - 1) + 1" using lt by simp
  have s3: "find_loop pts (int (b - 1) + 1) i2 = find_loop pts (int a + 1) i2"
    by (rule Suc.hyps(1)) (use Suc.hyps(2) Suc.prems lt in auto)
  show ?case using s1 s2 s3 by metis
qed

lemma before_seam_edges:
  "\<not> before_seam 1188" "before_seam 1187" "\<not> before_seam 888" "before_seam 887"
  by (simp_all add: before_seam_def)

lemma no_edge_late: "1188 < j \<Longrightarrow> \<not> (\<not> before_seam j \<and> \<not> \<not> before_seam (j - 1))"
  unfolding before_seam_def by linarith

lemma no_edge_between:
  "888 < j \<Longrightarrow> j \<le> 1187 \<Longrightarrow> \<not> (\<not> before_seam j \<and> \<not> \<not> before_seam (j - 1))"
  unfolding before_seam_def by linarith

lemma stuck_find_loop:
  "find_loop (map (\<lambda>j. \<not> before_seam j) [0..<2500]) 2500 (- 1) = Inr (Some (888, 1188))"
proof -
  let ?pts = "map (\<lambda>j. \<not> before_seam j) [0..<2500]"
  have n: "?pts ! j = (\<not> before_seam j)" if "j < 2500" for j
    using that by (simp del: upt_Suc)
  have len: "length ?pts = 2500" by simp
  have e1: "\<forall>j. 1188 < j \<and> j \<le> 2499 \<longrightarrow> \<not> (?pts ! j \<and> \<not> ?pts ! (j - 1))"
  proof (intro allI impI)
    fix j :: nat assume j: "1188 < j \<and> j \<le> 2499"
    then have "j < 2500" "j - 1 < 2500" by linarith+
    then show "\<not> (?pts ! j \<and> \<not> ?pts ! (j - 1))"
      using n [of j] n [of "j - 1"] no_edge_late [of j] j by simp
  qed
  have e2: "\<forall>j. 888 < j \<and> j \<le> 1187 \<longrightarrow> \<not> (?pts ! j \<and> \<not> ?pts ! (j - 1))"
  proof (intro allI impI)
    fix j :: nat assume j: "888 < j \<and> j \<le> 1187"
    then have "j < 2500" "j - 1 < 2500" by linarith+
    then show "\<not> (?pts ! j \<and> \<not> ?pts ! (j - 1))"
      using n [of j] n [of "j - 1"] no_edge_between [of j] j by simp
  qed
  have p1: "?pts ! 1188" "\<not> ?pts ! (1188 - 1)" "?pts ! 888" "\<not> ?pts ! (888 - 1)"
    using n [of 1188] n [of 1187] n [of 888] n [of 887] before_seam_edges by simp_all
  have "find_loop ?pts (int 2499 + 1) (- 1) = find_loop ?pts (int 1188 + 1) (- 1)"
    by (rule find_loop_skip [OF _ _ e1]) simp_all
  also have "\<dots> = find_loop ?pts (int 1188) (int 1188)"
    using find_loop_edge [of 1188 ?pts "- 1", OF _ _ p1(1,2)] by simp
  finally have a: "find_loop ?pts 2500 (- 1) = find_loop ?pts (int 1187 + 1) (int 1188)"
    by simp
  have "find_loop ?pts (int 1187 + 1) (int 1188) = find_loop ?pts (int 888 + 1) (int 1188)"
    by (rule find_loop_skip [OF _ _ e2]) simp_all
  also have "\<dots> = Inr (Some (int 888, int 1188))"
    using find_loop_edge [of 888 ?pts "int 1188", OF _ _ p1(3,4)] by simp
  finally show ?thesis using a by simp
qed

lemma stuck_cursor: "cursor_loop stuck_obs cursor_start = Some (stuck_at 2500)"
  using stuck_loop [of 0] by (simp add: stuck_start)

text \<open>
  C8 as stated fails on this run. The fourth lap is counted at pass 1200, and the loop
  does not stop: it runs all 2500 passes and ends with \<^verbatim>\<open>laps == 4\<close> and
  \<^verbatim>\<open>no_freeze == 0\<close>. The exhausted budget is no failure either: the backward search
  finds the crossings \<^verbatim>\<open>i1 = 888\<close> and \<^verbatim>\<open>i2 = 1188\<close>, and \<^verbatim>\<open>_get_track\<close> returns a track
  of 299 segments.
\<close>

theorem budget_exhausted_after_four_laps_returns_track:
  "cursor_loop stuck_obs cursor_start = Some (stuck_at 2500)
   \<and> laps (stuck_at 2500) = 4 \<and> no_freeze (stuck_at 2500) = 0
   \<and> length (points (stuck_at 2500)) = 2500
   \<and> get_track stuck_obs always_glued = Some (Inr (Some 299))"
proof -
  have "get_track stuck_obs always_glued = Some (Inr (Some 299))"
    by (simp add: get_track_def stuck_cursor stuck_end stuck_find_loop always_glued_def)
  then show ?thesis by (simp add: stuck_cursor stuck_end)
qed

end
